theory Spec2Isabelle
  imports Main "HOL-Library.Word"
begin

unbundle bit_operations_syntax

section \<open>Machine types\<close>

text \<open>
  \<open>duk_uint8_t\<close> is an 8-bit word, \<open>duk_uint32_t\<close>, \<open>duk_uint_t\<close> and
  \<open>duk_ucodepoint_t\<close> are 32-bit words. A byte buffer \<open>(data, blen)\<close> is the list of
  its \<open>blen\<close> bytes; a read pointer \<open>p\<close> with its end \<open>p_end\<close> is the list of the
  bytes in \<open>[p, p_end)\<close>, so \<open>p != p_end\<close> is \<open>p \<noteq> []\<close>, \<open>p_end - p\<close> is \<open>length p\<close>,
  \<open>p[i]\<close> is \<open>p ! i\<close> and \<open>p += n\<close> is \<open>drop n p\<close>. A write pointer \<open>q\<close> is the list of
  the bytes written so far, \<open>*q++ = b\<close> is \<open>q @ [b]\<close>.
\<close>

type_synonym u8 = "8 word"
type_synonym u32 = "32 word"

section \<open>duk_unicode_wtf8.c: validator\<close>

fun duk_unicode_is_valid_wtf8 :: "u8 list \<Rightarrow> bool" where
  "duk_unicode_is_valid_wtf8 [] = True"
| "duk_unicode_is_valid_wtf8 (t # p) =
     (if t \<le> 0x7f then duk_unicode_is_valid_wtf8 p
      else if t \<le> 0xc1 then False
      else if t \<le> 0xdf then
        (if length (t # p) \<ge> 2 \<and> p ! 0 \<ge> 0x80 \<and> p ! 0 \<le> 0xbf
         then duk_unicode_is_valid_wtf8 (drop 1 p) else False)
      else if t \<le> 0xef then
        (let lower = (if t = 0xe0 then 0xa0 else 0x80) in
         if length (t # p) \<ge> 3 \<and> p ! 0 \<ge> lower \<and> p ! 0 \<le> 0xbf
            \<and> p ! 1 \<ge> 0x80 \<and> p ! 1 \<le> 0xbf
         then duk_unicode_is_valid_wtf8 (drop 2 p) else False)
      else if t \<le> 0xf4 then
        (let lower = (if t = 0xf0 then 0x90 else 0x80);
             upper = (if t = 0xf4 then 0x8f else 0xbf) in
         if length (t # p) \<ge> 4 \<and> p ! 0 \<ge> lower \<and> p ! 0 \<le> upper
            \<and> p ! 1 \<ge> 0x80 \<and> p ! 1 \<le> 0xbf \<and> p ! 2 \<ge> 0x80 \<and> p ! 2 \<le> 0xbf
         then duk_unicode_is_valid_wtf8 (drop 3 p) else False)
      else False)"

section \<open>duk_unicode_wtf8.c: sanitizer\<close>

text \<open>
  One iteration of the \<open>while (p != p_end)\<close> loop of
  \<open>duk__unicode_wtf8_sanitize_string_reference\<close>, cut at its labels. \<open>sanitize_lead\<close> is
  the classification of the initial byte (\<open>None\<close> is \<open>goto replacement\<close>), giving
  \<open>(cp, num_cont, lower, upper)\<close>.
\<close>

definition sanitize_lead :: "u8 \<Rightarrow> (u32 \<times> int \<times> u8 \<times> u8) option" where
  "sanitize_lead t =
     (if t \<ge> 0xc2 then
        (if t \<le> 0xdf then Some (ucast (t AND 0x1f), 1, 0x80, 0xbf)
         else if t \<le> 0xef then
           Some (ucast (t AND 0x0f), 2, (if t = 0xe0 then 0xa0 else 0x80), 0xbf)
         else if t \<le> 0xf4 then
           Some (ucast (t AND 0x07), 3, (if t = 0xf0 then 0x90 else 0x80),
                 (if t = 0xf4 then 0x8f else 0xbf))
         else None)
      else None)"

text \<open>
  The \<open>do { ... } while (--num_cont != 0)\<close> loop over the continuation bytes. \<open>Inl p\<close> is
  \<open>goto replacement\<close> with the read pointer at \<open>p\<close> (after \<open>p--\<close> the offending byte is
  again the first byte of \<open>p\<close>); \<open>Inr (cp, p)\<close> is the normal exit.
\<close>

fun sanitize_conts :: "u32 \<Rightarrow> int \<Rightarrow> u8 \<Rightarrow> u8 \<Rightarrow> u8 list \<Rightarrow> u8 list + u32 \<times> u8 list" where
  "sanitize_conts cp num_cont lower upper [] = Inl []"
| "sanitize_conts cp num_cont lower upper (t # p) =
     (if t \<ge> lower \<and> t \<le> upper then
        (let cp' = push_bit 6 cp + ucast (t AND 0x3f) in
         if num_cont - 1 \<noteq> 0 then sanitize_conts cp' (num_cont - 1) 0x80 0xbf p
         else Inr (cp', p))
      else Inl (t # p))"

text \<open>The surrogate check after a decoded codepoint: a high surrogate followed by a
  3-byte low surrogate is combined and the low surrogate consumed.\<close>

definition sanitize_pair :: "u32 \<Rightarrow> u8 list \<Rightarrow> u32 \<times> u8 list" where
  "sanitize_pair cp p =
     (if cp \<ge> 0xd800 \<and> cp \<le> 0xdfff then
        (if cp < 0xdc00 then
           (let is_paired = (length p \<ge> 3 \<and> p ! 0 = 0xed \<and> p ! 1 \<ge> 0xb0 \<and> p ! 1 \<le> 0xbf
                              \<and> p ! 2 \<ge> 0x80 \<and> p ! 2 \<le> 0xbf) in
            if is_paired then
              (let hi = cp AND 0x3ff;
                   lo = push_bit 6 ((ucast (p ! 1) :: u32) AND 0x0f) + ((ucast (p ! 2) :: u32) AND 0x3f);
                   cp_combined = 0x10000 + push_bit 10 hi + lo
               in (cp_combined, drop 3 p))
            else (cp, p))
         else (cp, p))
      else (cp, p))"

text \<open>Emission of \<open>cp\<close>: the bytes written and the increment of \<open>out_clen_sub\<close>.\<close>

definition sanitize_emit :: "u32 \<Rightarrow> u8 list \<times> u32" where
  "sanitize_emit cp =
     (if cp \<le> 0x7ff then
        ([ucast (0xc0 + drop_bit 6 cp), ucast (0x80 + (cp AND 0x3f))], 1)
      else if cp \<le> 0xffff then
        ([ucast (0xe0 + drop_bit 12 cp), ucast (0x80 + (drop_bit 6 cp AND 0x3f)),
          ucast (0x80 + (cp AND 0x3f))], 2)
      else
        ([ucast (0xf0 + drop_bit 18 cp), ucast (0x80 + (drop_bit 12 cp AND 0x3f)),
          ucast (0x80 + (drop_bit 6 cp AND 0x3f)), ucast (0x80 + (cp AND 0x3f))], 3))"

definition replacement :: "u8 list \<times> u32" where
  "replacement = ([0xef, 0xbf, 0xbd], 2)"

text \<open>The loop body at \<open>t = *p++\<close>: the bytes written to \<open>q\<close>, the increment of
  \<open>out_clen_sub\<close>, and the read pointer for the next iteration.\<close>

definition sanitize_iter :: "u8 \<Rightarrow> u8 list \<Rightarrow> (u8 list \<times> u32) \<times> u8 list" where
  "sanitize_iter t p =
     (if t < 0x80 then (([t], 0), p)
      else
        (case sanitize_lead t of
           None \<Rightarrow> (replacement, p)
         | Some (cp, num_cont, lower, upper) \<Rightarrow>
             (case sanitize_conts cp num_cont lower upper p of
                Inl p' \<Rightarrow> (replacement, p')
              | Inr (cp', p') \<Rightarrow>
                  (case sanitize_pair cp' p' of
                     (cp'', p'') \<Rightarrow> (sanitize_emit cp'', p'')))))"

lemma sanitize_conts_length:
  "length (case sanitize_conts cp n lower upper p of Inl p' \<Rightarrow> p' | Inr (c, p') \<Rightarrow> p') \<le> length p"
proof (induction p arbitrary: cp n lower upper)
  case Nil
  show ?case by simp
next
  case (Cons t p)
  show ?case
    using Cons.IH [of "push_bit 6 cp + ucast (t AND 0x3f)" "n - 1" "0x80" "0xbf"]
    by (simp add: Let_def le_SucI)
qed

lemma sanitize_pair_length: "length (snd (sanitize_pair cp p)) \<le> length p"
  by (simp add: sanitize_pair_def Let_def)

lemma sanitize_iter_length: "length (snd (sanitize_iter t p)) \<le> length p"
proof (cases "sanitize_lead t")
  case None
  then show ?thesis by (simp add: sanitize_iter_def)
next
  case (Some a)
  obtain cp n lower upper where a: "a = (cp, n, lower, upper)"
    by (cases a) auto
  show ?thesis
  proof (cases "sanitize_conts cp n lower upper p")
    case (Inl p')
    with sanitize_conts_length [of cp n lower upper p] Some a show ?thesis
      by (simp add: sanitize_iter_def)
  next
    case (Inr r)
    obtain c p' where r: "r = (c, p')" by (cases r) auto
    have "length p' \<le> length p"
      using sanitize_conts_length [of cp n lower upper p] Inr r by simp
    moreover have "length (snd (sanitize_pair c p')) \<le> length p'"
      by (rule sanitize_pair_length)
    ultimately show ?thesis
      using Some a Inr r by (auto simp: sanitize_iter_def split: prod.splits)
  qed
qed

text \<open>The loop, with the write buffer \<open>q\<close> and \<open>out_clen_sub\<close> as its state.\<close>

function sanitize_loop :: "u8 list \<Rightarrow> u8 list \<Rightarrow> u32 \<Rightarrow> u8 list \<times> u32" where
  "sanitize_loop [] q out_clen_sub = (q, out_clen_sub)"
| "sanitize_loop (t # p) q out_clen_sub =
     (case sanitize_iter t p of
        ((bs, n), p') \<Rightarrow> sanitize_loop p' (q @ bs) (out_clen_sub + n))"
  by pat_completeness auto
termination
proof (relation "measure (\<lambda>(p, q, s). length p)")
  show "wf (measure (\<lambda>(p, q, s). length p))" by simp
next
  fix t :: u8 and p q p' bs :: "u8 list" and out_clen_sub n :: u32 and x1 :: "u8 list \<times> u32"
  assume "((x1, p') :: (u8 list \<times> u32) \<times> u8 list) = sanitize_iter t p"
  then have "p' = snd (sanitize_iter t p)"
    by (metis snd_conv)
  then have "length p' \<le> length p"
    using sanitize_iter_length [of t p] by simp
  then show "((p', q @ bs, out_clen_sub + n), (t # p, q, out_clen_sub))
        \<in> measure (\<lambda>(p, q, s). length p)"
    by simp
qed

text \<open>The function returns \<open>out_blen\<close>; \<open>out_clen\<close> is computed at the end and dropped
  (\<open>DUK_UNREF(out_clen)\<close>). The result is the contents of \<open>out_data\<close> with the return
  value; \<open>sanitize_out_clen\<close> is the value of the local \<open>out_clen\<close> at the return.\<close>

definition duk__unicode_wtf8_sanitize_string_reference :: "u8 list \<Rightarrow> u8 list \<times> u32" where
  "duk__unicode_wtf8_sanitize_string_reference str =
     (case sanitize_loop str [] 0 of
        (q, out_clen_sub) \<Rightarrow>
          (let out_blen = (word_of_nat (length q) :: u32);
               out_clen = out_blen - out_clen_sub
           in (q, out_blen)))"

definition sanitize_out_clen :: "u8 list \<Rightarrow> u32" where
  "sanitize_out_clen str =
     (case sanitize_loop str [] 0 of
        (q, out_clen_sub) \<Rightarrow>
          (let out_blen = (word_of_nat (length q) :: u32);
               out_clen = out_blen - out_clen_sub
           in out_clen))"

definition duk__unicode_wtf8_sanitize_symbol_reference :: "u8 list \<Rightarrow> u8 list \<times> u32" where
  "duk__unicode_wtf8_sanitize_symbol_reference str = (str, word_of_nat (length str))"

definition duk_unicode_wtf8_sanitize_symbol :: "u8 list \<Rightarrow> u8 list \<times> u32" where
  "duk_unicode_wtf8_sanitize_symbol str = duk__unicode_wtf8_sanitize_symbol_reference str"

definition duk_unicode_wtf8_sanitize_string :: "u8 list \<Rightarrow> u8 list \<times> u32" where
  "duk_unicode_wtf8_sanitize_string str = duk__unicode_wtf8_sanitize_string_reference str"

definition duk_unicode_wtf8_sanitize_detect :: "u8 list \<Rightarrow> u8 list \<times> u32" where
  "duk_unicode_wtf8_sanitize_detect str =
     (let symbol =
        (if length str > 0 then
           (let ib = str ! 0 in
            if ib \<le> 0x7f then False
            else if ib = 0x80 \<or> ib = 0x81 \<or> ib = 0x82 \<or> ib = 0xff then True
            else False)
         else False)
      in if symbol then duk_unicode_wtf8_sanitize_symbol str
         else duk_unicode_wtf8_sanitize_string str)"


section \<open>duk_unicode_wtf8.c: character length and decoding\<close>

text \<open>
  \<open>duk_unicode_wtf8_charlength\<close>: the loop accumulates \<open>adj\<close> and steps \<open>p\<close> by the width
  the initial byte announces. The loop condition is \<open>p != p_end\<close>; a step that would carry
  \<open>p\<close> past \<open>p_end\<close> (only on input that is not valid WTF-8) leaves the buffer, which is
  \<open>None\<close> here.
\<close>

fun charlength_loop :: "u8 list \<Rightarrow> nat \<Rightarrow> nat option" where
  "charlength_loop [] adj = Some adj"
| "charlength_loop (x # p) adj =
     (if x \<le> 0x7f then charlength_loop p adj
      else if x \<le> 0xdf then
        (if length (x # p) < 2 then None else charlength_loop (drop 1 p) (adj + (2 - 1)))
      else if x \<le> 0xef then
        (if length (x # p) < 3 then None else charlength_loop (drop 2 p) (adj + (3 - 1)))
      else
        (if length (x # p) < 4 then None else charlength_loop (drop 3 p) (adj + (4 - 2))))"

definition duk_unicode_wtf8_charlength :: "u8 list \<Rightarrow> nat option" where
  "duk_unicode_wtf8_charlength data =
     (case charlength_loop data 0 of
        None \<Rightarrow> None
      | Some adj \<Rightarrow> (let clen = length data - adj in Some clen))"

text \<open>\<open>duk_unicode_wtf8_decode_known\<close> at a pointer \<open>p\<close> into a buffer: \<open>None\<close> when a byte
  it reads lies outside the buffer.\<close>

definition duk_unicode_wtf8_decode_known :: "u8 list \<Rightarrow> u32 option" where
  "duk_unicode_wtf8_decode_known p =
     (if length p < 1 then None
      else
        (let t = p ! 0 in
         if t \<le> 0x7f then Some (ucast t)
         else if t \<le> 0xdf then
           (if length p < 2 then None
            else
              (let cp = ucast (t AND 0x1f);
                   cp = push_bit 6 cp + (ucast (p ! 1) AND 0x3f)
               in Some cp))
         else if t \<le> 0xef then
           (if length p < 3 then None
            else
              (let cp = ucast (t AND 0x0f);
                   cp = push_bit 12 cp + push_bit 6 (ucast (p ! 1) AND 0x3f) + (ucast (p ! 2) AND 0x3f)
               in Some cp))
         else
           (if length p < 4 then None
            else
              (let cp = ucast (t AND 0x07);
                   cp = push_bit 18 cp + push_bit 12 (ucast (p ! 1) AND 0x3f)
                        + push_bit 6 (ucast (p ! 2) AND 0x3f) + (ucast (p ! 3) AND 0x3f)
               in Some cp))))"

section \<open>duk_hstring_misc.c: the string handle\<close>

text \<open>
  The fields of \<open>duk_hstring\<close> the modelled functions read or write: the bytes after the
  header (\<open>blen\<close> is their number), \<open>clen\<close>, and the flags ASCII, SYMBOL and READONLY. The
  16-bit layout (\<open>DUK_USE_STRLEN16\<close>) and external data are not modelled.
\<close>

record duk_hstring =
  h_data :: "u8 list"
  h_clen :: u32
  h_ascii :: bool
  h_symbol :: bool
  h_readonly :: bool

definition duk_hstring_get_data :: "duk_hstring \<Rightarrow> u8 list" where
  "duk_hstring_get_data h = h_data h"

definition duk_hstring_get_bytelen :: "duk_hstring \<Rightarrow> nat" where
  "duk_hstring_get_bytelen h = length (h_data h)"

text \<open>Without \<open>DUK_USE_HSTRING_LAZY_CLEN\<close>: \<open>clen\<close> is set once when the handle is made and
  read back as it is.\<close>

definition duk_hstring_init_charlen :: "duk_hstring \<Rightarrow> duk_hstring option" where
  "duk_hstring_init_charlen h =
     (case (if h_symbol h then Some 0
            else duk_unicode_wtf8_charlength (duk_hstring_get_data h)) of
        None \<Rightarrow> None
      | Some clen \<Rightarrow>
          (let h1 = h\<lparr>h_clen := word_of_nat clen\<rparr> in
           if clen = duk_hstring_get_bytelen h1 then Some (h1\<lparr>h_ascii := True\<rparr>)
           else Some h1))"

definition duk_hstring_get_charlen :: "duk_hstring \<Rightarrow> nat" where
  "duk_hstring_get_charlen h = unat (h_clen h)"

text \<open>
  With \<open>DUK_USE_HSTRING_LAZY_CLEN\<close>. The first argument is \<open>DUK_USE_ROM_STRINGS\<close>. The
  result is the returned length with the handle after the call; \<open>None\<close> when
  \<open>duk_unicode_wtf8_charlength\<close> leaves the buffer. \<open>_clen\<close> is the variant with
  \<open>DUK_USE_HSTRING_CLEN\<close>, \<open>_noclen\<close> the one without.
\<close>

definition duk__hstring_get_charlen_slowpath_clen ::
    "bool \<Rightarrow> duk_hstring \<Rightarrow> (nat \<times> duk_hstring) option" where
  "duk__hstring_get_charlen_slowpath_clen rom_strings h =
     (if rom_strings \<and> h_readonly h then Some (0, h)
      else if h_symbol h then Some (0, h)
      else
        (case duk_unicode_wtf8_charlength (duk_hstring_get_data h) of
           None \<Rightarrow> None
         | Some res \<Rightarrow>
             (let h1 = h\<lparr>h_clen := word_of_nat res\<rparr> in
              if res = duk_hstring_get_bytelen h1 then Some (res, h1\<lparr>h_ascii := True\<rparr>)
              else Some (res, h1))))"

definition duk_hstring_get_charlen_lazy_clen ::
    "bool \<Rightarrow> duk_hstring \<Rightarrow> (nat \<times> duk_hstring) option" where
  "duk_hstring_get_charlen_lazy_clen rom_strings h =
     (if h_clen h \<noteq> 0 then Some (unat (h_clen h), h)
      else duk__hstring_get_charlen_slowpath_clen rom_strings h)"

definition duk__hstring_get_charlen_slowpath_noclen ::
    "bool \<Rightarrow> duk_hstring \<Rightarrow> (nat \<times> duk_hstring) option" where
  "duk__hstring_get_charlen_slowpath_noclen rom_strings h =
     (if h_ascii h then Some (duk_hstring_get_bytelen h, h)
      else if h_symbol h then Some (0, h)
      else
        (case duk_unicode_wtf8_charlength (duk_hstring_get_data h) of
           None \<Rightarrow> None
         | Some res \<Rightarrow>
             if rom_strings \<and> h_readonly h then Some (res, h)
             else if res = duk_hstring_get_bytelen h then Some (res, h\<lparr>h_ascii := True\<rparr>)
             else Some (res, h)))"

definition duk_hstring_get_charlen_lazy_noclen ::
    "bool \<Rightarrow> duk_hstring \<Rightarrow> (nat \<times> duk_hstring) option" where
  "duk_hstring_get_charlen_lazy_noclen rom_strings h =
     duk__hstring_get_charlen_slowpath_noclen rom_strings h"


section \<open>Collaborators of the substring and search functions\<close>

text \<open>
  Modelled from the spec: \<open>duk_strcache_scan_char2byte_wtf8\<close> (the char-to-byte cache) is
  not part of these sources. The spec gives its interface: for a character offset it
  returns \<open>(byte_off, char_off_at_byte)\<close> with \<open>char_off_at_byte \<le> char_pos\<close> and
  \<open>char_pos - char_off_at_byte\<close> either 0 or 1, the latter when the byte starts a
  supplementary codepoint and \<open>char_pos\<close> is its low half. The model walks the codepoints
  from the start of the string.
\<close>

fun scan_char2byte :: "u8 list \<Rightarrow> nat \<Rightarrow> nat \<times> nat" where
  "scan_char2byte [] char_pos = (0, 0)"
| "scan_char2byte (x # p) char_pos =
     (if x \<le> 0x7f then
        (if char_pos < 1 then (0, 0)
         else (case scan_char2byte p (char_pos - 1) of (b, c) \<Rightarrow> (b + 1, c + 1)))
      else if x \<le> 0xdf then
        (if char_pos < 1 then (0, 0)
         else (case scan_char2byte (drop 1 p) (char_pos - 1) of (b, c) \<Rightarrow> (b + 2, c + 1)))
      else if x \<le> 0xef then
        (if char_pos < 1 then (0, 0)
         else (case scan_char2byte (drop 2 p) (char_pos - 1) of (b, c) \<Rightarrow> (b + 3, c + 1)))
      else
        (if char_pos < 2 then (0, 0)
         else (case scan_char2byte (drop 3 p) (char_pos - 2) of (b, c) \<Rightarrow> (b + 4, c + 2))))"

definition duk_strcache_scan_char2byte_wtf8 :: "duk_hstring \<Rightarrow> nat \<Rightarrow> nat \<times> nat" where
  "duk_strcache_scan_char2byte_wtf8 h char_pos = scan_char2byte (duk_hstring_get_data h) char_pos"

text \<open>
  Modelled from the spec: \<open>duk_push_lstring\<close> (the interner) is not part of these sources.
  By the spec a handle is born by sanitizing the input bytes (symbol detection, then the
  WTF-8 sanitizer or the verbatim copy) and interning the result; the character length is
  then set by \<open>duk_hstring_init_charlen\<close>. Interned handles are unique for their bytes, so
  a handle is identified by its bytes and pointer equality of two interned handles is
  equality of their bytes.
\<close>

definition duk_push_lstring :: "u8 list \<Rightarrow> duk_hstring option" where
  "duk_push_lstring str =
     (let symbol = (length str > 0 \<and>
                    (str ! 0 = 0x80 \<or> str ! 0 = 0x81 \<or> str ! 0 = 0x82 \<or> str ! 0 = 0xff));
          out = fst (duk_unicode_wtf8_sanitize_detect str)
      in duk_hstring_init_charlen
           \<lparr>h_data = out, h_clen = 0, h_ascii = False, h_symbol = symbol, h_readonly = False\<rparr>)"

definition duk_push_hstring_empty :: "duk_hstring option" where
  "duk_push_hstring_empty = duk_push_lstring []"

section \<open>duk_unicode_wtf8.c: substring\<close>

text \<open>The three bytes written for a manufactured surrogate.\<close>

definition surrogate_bytes :: "u32 \<Rightarrow> u8 list" where
  "surrogate_bytes s =
     [0xed, ucast (0x80 + (drop_bit 6 s AND 0x3f)), ucast (0x80 + (s AND 0x3f))]"

text \<open>The scan to the start offset: \<open>(prefix_surrogate, copy_start)\<close>.\<close>

definition substring_start :: "duk_hstring \<Rightarrow> nat \<Rightarrow> (u32 \<times> nat) option" where
  "substring_start h_input start_offset =
     (case duk_strcache_scan_char2byte_wtf8 h_input start_offset of
        (start_byteoff, start_charoff) \<Rightarrow>
          if start_charoff \<noteq> start_offset then
            (case duk_unicode_wtf8_decode_known (drop start_byteoff (duk_hstring_get_data h_input)) of
               None \<Rightarrow> None
             | Some start_cp \<Rightarrow>
                 Some (0xdc00 + ((start_cp - 0x10000) AND 0x3ff), start_byteoff + 4))
          else Some (0, start_byteoff))"

text \<open>The scan to the end offset: \<open>(suffix_surrogate, copy_end)\<close>.\<close>

definition substring_end :: "duk_hstring \<Rightarrow> nat \<Rightarrow> (u32 \<times> nat) option" where
  "substring_end h_input end_offset =
     (case duk_strcache_scan_char2byte_wtf8 h_input end_offset of
        (end_byteoff, end_charoff) \<Rightarrow>
          if end_charoff \<noteq> end_offset then
            (case duk_unicode_wtf8_decode_known (drop end_byteoff (duk_hstring_get_data h_input)) of
               None \<Rightarrow> None
             | Some end_cp \<Rightarrow> Some (0xd800 + drop_bit 10 (end_cp - 0x10000), end_byteoff))
          else Some (0, end_byteoff))"

text \<open>
  The bytes handed to \<open>duk_push_lstring\<close>. \<open>None\<close> where the C code would read outside the
  string data: crossed or out-of-range offsets, which the caller must exclude
  (\<open>DUK_ASSERT(copy_end >= copy_start)\<close>).
\<close>

definition substring_bytes :: "duk_hstring \<Rightarrow> nat \<Rightarrow> nat \<Rightarrow> u8 list option" where
  "substring_bytes h_input start_offset end_offset =
     (if duk_hstring_get_charlen h_input = duk_hstring_get_bytelen h_input then
        (if end_offset < start_offset \<or> duk_hstring_get_bytelen h_input < end_offset then None
         else Some (take (end_offset - start_offset)
                      (drop start_offset (duk_hstring_get_data h_input))))
      else
        (let data = duk_hstring_get_data h_input in
         if start_offset = end_offset then Some []
         else
           (case substring_start h_input start_offset of
              None \<Rightarrow> None
            | Some (prefix_surrogate, copy_start) \<Rightarrow>
                (case substring_end h_input end_offset of
                   None \<Rightarrow> None
                 | Some (suffix_surrogate, copy_end) \<Rightarrow>
                     if copy_end < copy_start \<or> length data < copy_end then None
                     else
                       (let copy_size = copy_end - copy_start in
                        if prefix_surrogate = 0 \<and> suffix_surrogate = 0 then
                          Some (take copy_size (drop copy_start data))
                        else
                          (let q = [];
                               q = (if prefix_surrogate \<noteq> 0
                                    then q @ surrogate_bytes prefix_surrogate else q);
                               q = q @ take copy_size (drop copy_start data);
                               q = (if suffix_surrogate \<noteq> 0
                                    then q @ surrogate_bytes suffix_surrogate else q)
                           in Some q))))))"

definition duk_push_wtf8_substring_hstring ::
    "duk_hstring \<Rightarrow> nat \<Rightarrow> nat \<Rightarrow> duk_hstring option" where
  "duk_push_wtf8_substring_hstring h_input start_offset end_offset =
     (case substring_bytes h_input start_offset end_offset of
        None \<Rightarrow> None
      | Some buf \<Rightarrow> duk_push_lstring buf)"

section \<open>duk_unicode_wtf8.c: forward search\<close>

text \<open>
  The \<open>for\<close> loop of \<open>duk__unicode_wtf8_search_forwards_reference\<close>, on 32-bit offsets:
  \<open>charoff + match_charlen\<close> and \<open>charoff++\<close> wrap, and with \<open>input_charlen = 0xffffffff\<close>
  the loop condition never fails, so the loop is a partial function. \<open>h_tmp == h_match\<close>
  compares interned handles, that is, their bytes.
\<close>

partial_function (option) search_forwards_loop ::
    "duk_hstring \<Rightarrow> duk_hstring \<Rightarrow> u32 \<Rightarrow> u32 \<Rightarrow> u32 \<Rightarrow> int option" where
  "search_forwards_loop h_input h_match input_charlen match_charlen charoff =
     (if charoff \<le> input_charlen then
        (if charoff + match_charlen \<le> input_charlen then
           (case duk_push_wtf8_substring_hstring h_input (unat charoff)
                   (unat (charoff + match_charlen)) of
              None \<Rightarrow> None
            | Some h_tmp \<Rightarrow>
                if duk_hstring_get_data h_tmp = duk_hstring_get_data h_match
                then Some (sint charoff)
                else search_forwards_loop h_input h_match input_charlen match_charlen (charoff + 1))
         else search_forwards_loop h_input h_match input_charlen match_charlen (charoff + 1))
      else Some (- 1))"

definition duk__unicode_wtf8_search_forwards_reference ::
    "duk_hstring \<Rightarrow> duk_hstring \<Rightarrow> u32 \<Rightarrow> int option" where
  "duk__unicode_wtf8_search_forwards_reference h_input h_match start_charoff =
     (let input_charlen = word_of_nat (duk_hstring_get_charlen h_input);
          match_charlen = word_of_nat (duk_hstring_get_charlen h_match)
      in search_forwards_loop h_input h_match input_charlen match_charlen start_charoff)"

definition duk_unicode_wtf8_search_forwards ::
    "duk_hstring \<Rightarrow> duk_hstring \<Rightarrow> u32 \<Rightarrow> int option" where
  "duk_unicode_wtf8_search_forwards h_input h_match start_charoff =
     duk__unicode_wtf8_search_forwards_reference h_input h_match start_charoff"


section \<open>The specification's vocabulary\<close>

text \<open>
  These definitions follow the words of the specification, not the code. A sequence is
  announced by its initial byte: one byte up to \<open>0x7f\<close>, two bytes for \<open>0xc2\<close>-\<open>0xdf\<close>,
  three for \<open>0xe0\<close>-\<open>0xef\<close>, four for \<open>0xf0\<close>-\<open>0xf4\<close>. The first continuation byte is
  restricted against overlong encodings and codepoints above U+10FFFF.
\<close>

definition wtf8_invalid_lead :: "u8 \<Rightarrow> bool" where
  "wtf8_invalid_lead t = ((0x80 \<le> t \<and> t \<le> 0xc1) \<or> 0xf5 \<le> t)"

definition wtf8_width :: "u8 \<Rightarrow> nat" where
  "wtf8_width t = (if t \<le> 0x7f then 1 else if t \<le> 0xdf then 2 else if t \<le> 0xef then 3 else 4)"

definition wtf8_lower :: "u8 \<Rightarrow> u8" where
  "wtf8_lower t = (if t = 0xe0 then 0xa0 else if t = 0xf0 then 0x90 else 0x80)"

definition wtf8_upper :: "u8 \<Rightarrow> u8" where
  "wtf8_upper t = (if t = 0xf4 then 0x8f else 0xbf)"

text \<open>The number of acceptable continuation bytes at the head of \<open>p\<close>, at most \<open>n\<close>: the
  first within \<open>[lower, upper]\<close>, the following ones within \<open>[0x80, 0xbf]\<close>.\<close>

fun wtf8_good_conts :: "u8 \<Rightarrow> u8 \<Rightarrow> nat \<Rightarrow> u8 list \<Rightarrow> nat" where
  "wtf8_good_conts lower upper 0 p = 0"
| "wtf8_good_conts lower upper (Suc n) [] = 0"
| "wtf8_good_conts lower upper (Suc n) (c # p) =
     (if lower \<le> c \<and> c \<le> upper then Suc (wtf8_good_conts 0x80 0xbf n p) else 0)"

text \<open>The scalar value of the sequence at the head of \<open>p\<close>; a well-formed 3-byte
  sequence at the head of \<open>p\<close>; a surrogate encoded as such a sequence.\<close>

definition scalar_at :: "u8 list \<Rightarrow> nat" where
  "scalar_at p = (case duk_unicode_wtf8_decode_known p of None \<Rightarrow> 0 | Some cp \<Rightarrow> unat cp)"

definition seq3_at :: "u8 list \<Rightarrow> bool" where
  "seq3_at p =
     (3 \<le> length p \<and> 0xe0 \<le> p ! 0 \<and> p ! 0 \<le> 0xef \<and> wtf8_lower (p ! 0) \<le> p ! 1 \<and> p ! 1 \<le> 0xbf
      \<and> 0x80 \<le> p ! 2 \<and> p ! 2 \<le> 0xbf)"

definition high_surrogate_at :: "u8 list \<Rightarrow> bool" where
  "high_surrogate_at p = (seq3_at p \<and> 0xd800 \<le> scalar_at p \<and> scalar_at p \<le> 0xdbff)"

definition low_surrogate_at :: "u8 list \<Rightarrow> bool" where
  "low_surrogate_at p = (seq3_at p \<and> 0xdc00 \<le> scalar_at p \<and> scalar_at p \<le> 0xdfff)"

text \<open>The 4-byte encoding of a supplementary codepoint, and the codepoint of a surrogate
  pair.\<close>

definition utf8_enc4 :: "nat \<Rightarrow> u8 list" where
  "utf8_enc4 cp =
     [of_nat (240 + cp div 262144), of_nat (128 + cp div 4096 mod 64),
      of_nat (128 + cp div 64 mod 64), of_nat (128 + cp mod 64)]"

definition combine_surrogates :: "nat \<Rightarrow> nat \<Rightarrow> nat" where
  "combine_surrogates hi lo = 0x10000 + (hi - 0xd800) * 1024 + (lo - 0xdc00)"

text \<open>
  What happens at the head \<open>t # p\<close> of the input: an ASCII byte is copied; an invalid
  sequence of \<open>k\<close> bytes (the initial byte and the acceptable continuation bytes before the
  offending byte or the end of the input) is replaced; a high surrogate followed by a
  low surrogate is a pair; any other complete sequence of \<open>n\<close> bytes is a scalar.
\<close>

datatype wtf8_event = Ascii | Invalid nat | Scalar nat | SurrogatePair

definition wtf8_event_at :: "u8 \<Rightarrow> u8 list \<Rightarrow> wtf8_event" where
  "wtf8_event_at t p =
     (if t \<le> 0x7f then Ascii
      else if wtf8_invalid_lead t then Invalid 1
      else
        (let n = wtf8_width t - 1;
             k = wtf8_good_conts (wtf8_lower t) (wtf8_upper t) n p
         in if k < n then Invalid (1 + k)
            else if high_surrogate_at (t # p) \<and> low_surrogate_at (drop 2 p) then SurrogatePair
            else Scalar (1 + n)))"

text \<open>The bytes each event puts out, its share of the extra bytes, and the rest of the
  input.\<close>

definition wtf8_event_step :: "u8 \<Rightarrow> u8 list \<Rightarrow> (u8 list \<times> u32) \<times> u8 list" where
  "wtf8_event_step t p =
     (case wtf8_event_at t p of
        Ascii \<Rightarrow> (([t], 0), p)
      | Invalid k \<Rightarrow> (([0xef, 0xbf, 0xbd], 2), drop (k - 1) p)
      | Scalar n \<Rightarrow> ((t # take (n - 1) p, word_of_nat (n - 1)), drop (n - 1) p)
      | SurrogatePair \<Rightarrow>
          ((utf8_enc4 (combine_surrogates (scalar_at (t # p)) (scalar_at (drop 2 p))), 3),
           drop 5 p))"

text \<open>Coalescing of surrogate pairs in valid WTF-8, sequence by sequence.\<close>

fun coalesce_pairs :: "u8 list \<Rightarrow> u8 list" where
  "coalesce_pairs [] = []"
| "coalesce_pairs (t # p) =
     (if high_surrogate_at (t # p) \<and> low_surrogate_at (drop 2 p)
      then utf8_enc4 (combine_surrogates (scalar_at (t # p)) (scalar_at (drop 2 p)))
           @ coalesce_pairs (drop 5 p)
      else (t # take (wtf8_width t - 1) p) @ coalesce_pairs (drop (wtf8_width t - 1) p))"

text \<open>The character count of the specification: each initial byte adds its characters and
  advances by its width.\<close>

fun char_count :: "u8 list \<Rightarrow> nat" where
  "char_count [] = 0"
| "char_count (t # p) =
     (if t \<le> 0x7f then 1 + char_count p
      else if 0xc2 \<le> t \<and> t \<le> 0xdf then 1 + char_count (drop 1 p)
      else if 0xe0 \<le> t \<and> t \<le> 0xef then 1 + char_count (drop 2 p)
      else if 0xf0 \<le> t \<and> t \<le> 0xf4 then 2 + char_count (drop 3 p)
      else 0)"

text \<open>The scalars of a byte string, decoded sequence by sequence.\<close>

fun scalars :: "u8 list \<Rightarrow> u32 list" where
  "scalars [] = []"
| "scalars (t # p) =
     (case duk_unicode_wtf8_decode_known (t # p) of
        None \<Rightarrow> []
      | Some cp \<Rightarrow> cp # scalars (drop (wtf8_width t - 1) p))"

text \<open>The extra bytes of the codepoints of a byte string: a 2-byte sequence has one, a
  3-byte sequence two, a 4-byte sequence three.\<close>

fun extra_bytes :: "u8 list \<Rightarrow> nat" where
  "extra_bytes [] = 0"
| "extra_bytes (t # p) = (wtf8_width t - 1) + extra_bytes (drop (wtf8_width t - 1) p)"


text \<open>A 3-byte high surrogate at \<open>p\<close>, and the pairing test of the sanitizer (a 3-byte
  low surrogate at \<open>p\<close>), on the bytes.\<close>

definition hi3_at :: "u8 list \<Rightarrow> bool" where
  "hi3_at p = (3 \<le> length p \<and> p ! 0 = 0xed \<and> 0xa0 \<le> p ! 1 \<and> p ! 1 \<le> 0xaf
               \<and> 0x80 \<le> p ! 2 \<and> p ! 2 \<le> 0xbf)"

definition lo3_at :: "u8 list \<Rightarrow> bool" where
  "lo3_at p = (3 \<le> length p \<and> p ! 0 = 0xed \<and> 0xb0 \<le> p ! 1 \<and> p ! 1 \<le> 0xbf
               \<and> 0x80 \<le> p ! 2 \<and> p ! 2 \<le> 0xbf)"

text \<open>A complete sequence at the head \<open>t # p\<close>: a valid initial byte of a multi-byte
  sequence and all of its continuation bytes acceptable. \<open>wf_seq s\<close>: the bytes \<open>s\<close> are
  exactly one such sequence.\<close>

definition seq_at :: "u8 \<Rightarrow> u8 list \<Rightarrow> bool" where
  "seq_at t p =
     (\<not> t \<le> 0x7f \<and> \<not> wtf8_invalid_lead t
      \<and> wtf8_good_conts (wtf8_lower t) (wtf8_upper t) (wtf8_width t - 1) p = wtf8_width t - 1)"

definition wf_seq :: "u8 list \<Rightarrow> bool" where
  "wf_seq s = (s \<noteq> [] \<and> seq_at (hd s) (tl s) \<and> length s = wtf8_width (hd s))"

text \<open>The output bytes of the sanitizer loop and the final \<open>out_clen_sub\<close>, from an empty
  buffer.\<close>

definition sanitize_bytes :: "u8 list \<Rightarrow> u8 list" where
  "sanitize_bytes str = fst (sanitize_loop str [] 0)"

definition sanitize_sub :: "u8 list \<Rightarrow> u32" where
  "sanitize_sub str = snd (sanitize_loop str [] 0)"

text \<open>The characters an initial byte stands for: two for a 4-byte sequence.\<close>

definition wtf8_chars :: "u8 \<Rightarrow> nat" where
  "wtf8_chars t = (if wtf8_width t = 4 then 2 else 1)"

text \<open>The 3-byte WTF-8 form of a surrogate \<open>s\<close> (initial byte 0xED).\<close>

definition surrogate_enc3 :: "nat \<Rightarrow> u8 list" where
  "surrogate_enc3 s = [0xed, of_nat (128 + s div 64 mod 64), of_nat (128 + s mod 64)]"

text \<open>A string handle as the substring and search functions expect it: its bytes are
  valid WTF-8 and its stored character length is their character count.\<close>

definition hstring_ok :: "duk_hstring \<Rightarrow> bool" where
  "hstring_ok h =
     (duk_unicode_is_valid_wtf8 (h_data h) \<and> duk_hstring_get_charlen h = char_count (h_data h))"

text \<open>
  A match of the needle \<open>n\<close> at the character offset \<open>i\<close> of \<open>h\<close>: the character range of the
  needle's character length starting at \<open>i\<close> lies within \<open>h\<close> and its substring has the
  needle's bytes.
\<close>

definition match_at :: "duk_hstring \<Rightarrow> duk_hstring \<Rightarrow> nat \<Rightarrow> bool" where
  "match_at h n i =
     (i + duk_hstring_get_charlen n \<le> duk_hstring_get_charlen h
      \<and> (case duk_push_wtf8_substring_hstring h i (i + duk_hstring_get_charlen n) of
           None \<Rightarrow> False
         | Some r \<Rightarrow> duk_hstring_get_data r = duk_hstring_get_data n))"

text \<open>
  The answer of a forward search from the character offset \<open>k\<close>: the sentinel -1 and no
  match at or after \<open>k\<close>, or the smallest offset at or after \<open>k\<close> with a match.
\<close>

abbreviation search_result :: "duk_hstring \<Rightarrow> duk_hstring \<Rightarrow> nat \<Rightarrow> int \<Rightarrow> bool" where
  "search_result h n k res \<equiv>
     ((res = - 1 \<and> (\<forall>i. k \<le> i \<longrightarrow> \<not> match_at h n i))
      \<or> (\<exists>i. res = int i \<and> k \<le> i \<and> match_at h n i
              \<and> (\<forall>j. k \<le> j \<and> j < i \<longrightarrow> \<not> match_at h n j)))"

text \<open>
  The character length of a handle under the ECMAScript view: the character count of its
  bytes, and 0 for a symbol.
\<close>

definition hstring_charlen :: "duk_hstring \<Rightarrow> nat" where
  "hstring_charlen h = (if h_symbol h then 0 else char_count (h_data h))"

section \<open>Word arithmetic on natural numbers\<close>

lemma unat_and_mask: "unat ((x::'a::len word) AND mask n) = unat x mod 2 ^ n"
proof -
  have "unat (x AND mask n) = unat (take_bit n x)"
    by (simp only: take_bit_eq_mask)
  also have "\<dots> = take_bit n (unat x)"
    by (rule unsigned_take_bit_eq)
  also have "\<dots> = unat x mod 2 ^ n"
    by (rule take_bit_eq_mod)
  finally show ?thesis .
qed

lemma unat_and_3f_8: "unat ((x::u8) AND 0x3f) = unat x mod 64"
  using unat_and_mask [of x 6] by (simp add: mask_eq_exp_minus_1)
lemma unat_and_1f_8: "unat ((x::u8) AND 0x1f) = unat x mod 32"
  using unat_and_mask [of x 5] by (simp add: mask_eq_exp_minus_1)
lemma unat_and_0f_8: "unat ((x::u8) AND 0x0f) = unat x mod 16"
  using unat_and_mask [of x 4] by (simp add: mask_eq_exp_minus_1)
lemma unat_and_07_8: "unat ((x::u8) AND 0x07) = unat x mod 8"
  using unat_and_mask [of x 3] by (simp add: mask_eq_exp_minus_1)
lemma unat_and_3f_32: "unat ((x::u32) AND 0x3f) = unat x mod 64"
  using unat_and_mask [of x 6] by (simp add: mask_eq_exp_minus_1)
lemma unat_and_0f_32: "unat ((x::u32) AND 0x0f) = unat x mod 16"
  using unat_and_mask [of x 4] by (simp add: mask_eq_exp_minus_1)
lemma unat_and_3ff_32: "unat ((x::u32) AND 0x3ff) = unat x mod 1024"
  using unat_and_mask [of x 10] by (simp add: mask_eq_exp_minus_1)

lemma unat_lt_256: "unat (x::u8) < 256"
  using unsigned_less [of x, where 'a=nat] by simp

lemma unat_ucast_8_32: "unat (ucast (x::u8) :: u32) = unat x"
proof -
  have "unat (ucast x :: u32) = take_bit LENGTH(32) (unat x)"
    by (rule unsigned_ucast_eq)
  also have "\<dots> = unat x mod 2 ^ 32"
    by (simp only: take_bit_eq_mod len_bit0 len_num1) simp
  also have "\<dots> = unat x"
    using unat_lt_256 [of x] by simp
  finally show ?thesis .
qed

lemma unat_ucast_32_8: "unat (ucast (x::u32) :: u8) = unat x mod 256"
proof -
  have "unat (ucast x :: u8) = take_bit LENGTH(8) (unat x)"
    by (rule unsigned_ucast_eq)
  also have "\<dots> = unat x mod 256"
    by (simp add: take_bit_eq_mod)
  finally show ?thesis .
qed

lemma unat_drop_32: "unat (drop_bit n (x::u32)) = unat x div 2 ^ n"
proof -
  have "unat (drop_bit n x) = drop_bit n (unat x)"
    by (rule unat_drop_bit_eq)
  also have "\<dots> = unat x div 2 ^ n"
    by (rule drop_bit_eq_div)
  finally show ?thesis .
qed

lemma unat_push_32: "unat (push_bit n (x::u32)) = (unat x * 2 ^ n) mod 4294967296"
proof -
  have "unat (push_bit n x) = take_bit LENGTH(32) (push_bit n (unat x))"
    by (rule unsigned_push_bit_eq)
  also have "\<dots> = (unat x * 2 ^ n) mod 4294967296"
    by (simp add: take_bit_eq_mod push_bit_eq_mult)
  finally show ?thesis .
qed

lemma unat_add_32: "unat ((x::u32) + y) = (unat x + unat y) mod 4294967296"
  by (simp add: unat_word_ariths)

lemma cont_step_nat:
  assumes "unat cp < 2 ^ 20"
  shows "unat (push_bit 6 (cp::u32) + ucast ((c::u8) AND 0x3f)) = unat cp * 64 + unat c mod 64"
proof -
  have a: "unat (push_bit 6 cp) = unat cp * 64"
    using assms by (simp only: unat_push_32) simp
  have b: "unat (ucast (c AND 0x3f) :: u32) = unat c mod 64"
    by (simp only: unat_ucast_8_32 unat_and_3f_8)
  have "unat c mod 64 < 64" by simp
  then show ?thesis using assms
    by (simp only: unat_add_32 a b) simp
qed

lemma emit2_nat:
  assumes "unat (cp::u32) = x * 64 + y" "x < 32" "y < 64"
  shows "sanitize_emit cp = ([of_nat (192 + x), of_nat (128 + y)], 1)"
proof -
  have le: "cp \<le> 0x7ff" using assms by (simp add: word_le_nat_alt)
  have d: "unat cp div 64 = x" using assms by simp
  have m: "unat cp mod 64 = y" using assms by simp
  have "unat (ucast (0xc0 + drop_bit 6 cp :: u32) :: u8) = 192 + x"
    using assms(2) by (simp only: unat_ucast_32_8 unat_add_32 unat_drop_32) (simp add: d)
  then have b0: "(ucast (0xc0 + drop_bit 6 cp :: u32) :: u8) = of_nat (192 + x)"
    by (metis of_nat_unat ucast_id)
  have "unat (ucast (0x80 + (cp AND 0x3f) :: u32) :: u8) = 128 + y"
    using assms(3) by (simp only: unat_ucast_32_8 unat_add_32 unat_and_3f_32) (simp add: m)
  then have b1: "(ucast (0x80 + (cp AND 0x3f) :: u32) :: u8) = of_nat (128 + y)"
    by (metis of_nat_unat ucast_id)
  show ?thesis using le b0 b1 by (simp add: sanitize_emit_def)
qed


lemma byte_of_nat_unat: "unat (b::u8) = n \<Longrightarrow> b = of_nat n"
  by (metis of_nat_unat ucast_id)

lemma emit3_nat:
  assumes "unat (cp::u32) = x * 4096 + y * 64 + z" "x < 16" "y < 64" "z < 64" "32 \<le> x * 64 + y"
  shows "sanitize_emit cp = ([of_nat (224 + x), of_nat (128 + y), of_nat (128 + z)], 2)"
proof -
  have gt: "\<not> cp \<le> 0x7ff" using assms by (simp add: word_le_nat_alt)
  have le: "cp \<le> 0xffff" using assms by (simp add: word_le_nat_alt)
  have d12: "unat cp div 4096 = x" using assms by simp
  have "unat cp div 64 = x * 64 + y" using assms by simp
  then have d6: "unat cp div 64 mod 64 = y" using assms by simp
  have "unat cp = (x * 64 + y) * 64 + z" using assms by simp
  then have m: "unat cp mod 64 = z" using assms(4) by (simp only: mod_mult_self3) simp
  have "unat (ucast (0xe0 + drop_bit 12 cp :: u32) :: u8) = 224 + x"
    using assms(2) by (simp only: unat_ucast_32_8 unat_add_32 unat_drop_32) (simp add: d12)
  then have b0: "(ucast (0xe0 + drop_bit 12 cp :: u32) :: u8) = of_nat (224 + x)"
    by (rule byte_of_nat_unat)
  have "unat (ucast (0x80 + (drop_bit 6 cp AND 0x3f) :: u32) :: u8) = 128 + y"
    using assms(3) by (simp only: unat_ucast_32_8 unat_add_32 unat_and_3f_32 unat_drop_32) (simp add: d6)
  then have b1: "(ucast (0x80 + (drop_bit 6 cp AND 0x3f) :: u32) :: u8) = of_nat (128 + y)"
    by (rule byte_of_nat_unat)
  have "unat (ucast (0x80 + (cp AND 0x3f) :: u32) :: u8) = 128 + z"
    using assms(4) by (simp only: unat_ucast_32_8 unat_add_32 unat_and_3f_32) (simp add: m)
  then have b2: "(ucast (0x80 + (cp AND 0x3f) :: u32) :: u8) = of_nat (128 + z)"
    by (rule byte_of_nat_unat)
  show ?thesis using gt le b0 b1 b2 by (simp add: sanitize_emit_def)
qed

lemma emit4_nat:
  assumes "unat (cp::u32) = w * 262144 + x * 4096 + y * 64 + z"
    "w < 8" "x < 64" "y < 64" "z < 64" "16 \<le> w * 64 + x"
  shows "sanitize_emit cp =
    ([of_nat (240 + w), of_nat (128 + x), of_nat (128 + y), of_nat (128 + z)], 3)"
proof -
  have gt: "\<not> cp \<le> 0x7ff" using assms by (simp add: word_le_nat_alt)
  have gt2: "\<not> cp \<le> 0xffff" using assms by (simp add: word_le_nat_alt)
  have d18: "unat cp div 262144 = w" using assms by simp
  have "unat cp div 4096 = w * 64 + x" using assms by simp
  then have d12: "unat cp div 4096 mod 64 = x" using assms by simp
  have "unat cp div 64 = (w * 64 + x) * 64 + y" using assms by simp
  then have d6: "unat cp div 64 mod 64 = y" using assms(4) by (simp only: mod_mult_self3) simp
  have "unat cp = ((w * 64 + x) * 64 + y) * 64 + z" using assms by simp
  then have m: "unat cp mod 64 = z" using assms(5) by (simp only: mod_mult_self3) simp
  have "unat (ucast (0xf0 + drop_bit 18 cp :: u32) :: u8) = 240 + w"
    using assms(2) by (simp only: unat_ucast_32_8 unat_add_32 unat_drop_32) (simp add: d18)
  then have b0: "(ucast (0xf0 + drop_bit 18 cp :: u32) :: u8) = of_nat (240 + w)"
    by (rule byte_of_nat_unat)
  have "unat (ucast (0x80 + (drop_bit 12 cp AND 0x3f) :: u32) :: u8) = 128 + x"
    using assms(3) by (simp only: unat_ucast_32_8 unat_add_32 unat_and_3f_32 unat_drop_32) (simp add: d12)
  then have b1: "(ucast (0x80 + (drop_bit 12 cp AND 0x3f) :: u32) :: u8) = of_nat (128 + x)"
    by (rule byte_of_nat_unat)
  have "unat (ucast (0x80 + (drop_bit 6 cp AND 0x3f) :: u32) :: u8) = 128 + y"
    using assms(4) by (simp only: unat_ucast_32_8 unat_add_32 unat_and_3f_32 unat_drop_32) (simp add: d6)
  then have b2: "(ucast (0x80 + (drop_bit 6 cp AND 0x3f) :: u32) :: u8) = of_nat (128 + y)"
    by (rule byte_of_nat_unat)
  have "unat (ucast (0x80 + (cp AND 0x3f) :: u32) :: u8) = 128 + z"
    using assms(5) by (simp only: unat_ucast_32_8 unat_add_32 unat_and_3f_32) (simp add: m)
  then have b3: "(ucast (0x80 + (cp AND 0x3f) :: u32) :: u8) = of_nat (128 + z)"
    by (rule byte_of_nat_unat)
  show ?thesis using gt gt2 b0 b1 b2 b3 by (simp add: sanitize_emit_def)
qed

lemma cont_split:
  assumes "0x80 \<le> (c::u8)" "c \<le> 0xbf"
  shows "\<exists>x. x < 64 \<and> unat c = 128 + x \<and> c = of_nat (128 + x)"
proof -
  have 1: "128 \<le> unat c" "unat c \<le> 191"
    using assms by (simp_all add: word_le_nat_alt)
  have "unat c = 128 + (unat c - 128)" using 1 by simp
  moreover have "unat c - 128 < 64" using 1 by arith
  ultimately show ?thesis by (metis byte_of_nat_unat)
qed

section \<open>The loop body on complete sequences\<close>

lemma lead2_split:
  assumes "0xc2 \<le> (t::u8)" "t \<le> 0xdf"
  shows "\<exists>x. 2 \<le> x \<and> x < 32 \<and> unat t = 192 + x \<and> t = of_nat (192 + x)"
proof -
  have 1: "194 \<le> unat t" "unat t \<le> 223"
    using assms by (simp_all add: word_le_nat_alt)
  have "unat t = 192 + (unat t - 192)" using 1 by simp
  moreover have "unat t - 192 < 32" "2 \<le> unat t - 192" using 1 by arith+
  ultimately show ?thesis by (metis byte_of_nat_unat)
qed

lemma lead3_split:
  assumes "0xe0 \<le> (t::u8)" "t \<le> 0xef"
  shows "\<exists>x. x < 16 \<and> unat t = 224 + x \<and> t = of_nat (224 + x)"
proof -
  have 1: "224 \<le> unat t" "unat t \<le> 239"
    using assms by (simp_all add: word_le_nat_alt)
  have "unat t = 224 + (unat t - 224)" using 1 by simp
  moreover have "unat t - 224 < 16" using 1 by arith
  ultimately show ?thesis by (metis byte_of_nat_unat)
qed

lemma lead4_split:
  assumes "0xf0 \<le> (t::u8)" "t \<le> 0xf4"
  shows "\<exists>x. x < 5 \<and> unat t = 240 + x \<and> t = of_nat (240 + x)"
proof -
  have 1: "240 \<le> unat t" "unat t \<le> 244"
    using assms by (simp_all add: word_le_nat_alt)
  have "unat t = 240 + (unat t - 240)" using 1 by simp
  moreover have "unat t - 240 < 5" using 1 by arith
  ultimately show ?thesis by (metis byte_of_nat_unat)
qed

lemma mod_window: "x < m \<Longrightarrow> (k * m + x) mod m = (x::nat)"
  by simp

lemma unat_lead2: "unat (t::u8) = 192 + x \<Longrightarrow> x < 32 \<Longrightarrow> unat (ucast (t AND 0x1f) :: u32) = x"
  using mod_window [of x 32 6] by (simp only: unat_ucast_8_32 unat_and_1f_8) simp

lemma unat_lead3: "unat (t::u8) = 224 + x \<Longrightarrow> x < 16 \<Longrightarrow> unat (ucast (t AND 0x0f) :: u32) = x"
  using mod_window [of x 16 14] by (simp only: unat_ucast_8_32 unat_and_0f_8) simp

lemma unat_lead4: "unat (t::u8) = 240 + x \<Longrightarrow> x < 8 \<Longrightarrow> unat (ucast (t AND 0x07) :: u32) = x"
  using mod_window [of x 8 30] by (simp only: unat_ucast_8_32 unat_and_07_8) simp

lemma cont_step_val:
  assumes "unat (cp::u32) = v" "v < 2 ^ 20" "unat (c::u8) = 128 + y" "y < 64"
  shows "unat (push_bit 6 cp + ucast (c AND 0x3f)) = v * 64 + y"
proof -
  have "unat c mod 64 = y" using assms(3,4) mod_window [of y 64 2] by simp
  then show ?thesis using cont_step_nat [of cp c] assms(1,2) by simp
qed

lemma iter_seq2:
  assumes "0xc2 \<le> t" "t \<le> 0xdf" "0x80 \<le> c" "c \<le> 0xbf"
  shows "sanitize_iter t (c # p) = (([t, c], 1), p)"
proof -
  obtain x where x: "2 \<le> x" "x < 32" "unat t = 192 + x" "t = of_nat (192 + x)"
    using lead2_split [OF assms(1,2)] by blast
  obtain y where y: "y < 64" "unat c = 128 + y" "c = of_nat (128 + y)"
    using cont_split [OF assms(3,4)] by blast
  define cp :: u32 where "cp = push_bit 6 (ucast (t AND 0x1f)) + ucast (c AND 0x3f)"
  have v: "unat cp = x * 64 + y"
    unfolding cp_def using cont_step_val [OF unat_lead2 [OF x(3) x(2)] _ y(2) y(1)] x(2) by simp
  have nt: "\<not> t < 0x80" using assms(1) by (simp add: word_le_nat_alt word_less_nat_alt)
  have lead: "sanitize_lead t = Some (ucast (t AND 0x1f), 1, 0x80, 0xbf)"
    using assms by (simp add: sanitize_lead_def)
  have conts: "sanitize_conts (ucast (t AND 0x1f)) 1 0x80 0xbf (c # p) = Inr (cp, p)"
    using assms by (simp add: cp_def Let_def)
  have "\<not> 0xd800 \<le> cp" using v x y by (simp add: word_le_nat_alt)
  then have pair: "sanitize_pair cp p = (cp, p)"
    by (simp add: sanitize_pair_def)
  have emit: "sanitize_emit cp = ([t, c], 1)"
    using emit2_nat [OF v x(2) y(1)] x(4) y(3) by simp
  show ?thesis
    by (simp only: sanitize_iter_def nt lead conts pair emit if_False option.case prod.case sum.case)
qed

lemma sanitize_pair_not_lo: "\<not> lo3_at p \<Longrightarrow> sanitize_pair cp p = (cp, p)"
  unfolding sanitize_pair_def lo3_at_def Let_def by (simp only: if_False if_cancel)

lemma iter_seq3:
  assumes "0xe0 \<le> t" "t \<le> 0xef" "(if t = 0xe0 then 0xa0 else 0x80) \<le> c1" "c1 \<le> 0xbf"
    "0x80 \<le> c2" "c2 \<le> 0xbf"
    and np: "t = 0xed \<and> 0xa0 \<le> c1 \<and> c1 \<le> 0xaf \<Longrightarrow> \<not> lo3_at p"
  shows "sanitize_iter t (c1 # c2 # p) = (([t, c1, c2], 2), p)"
proof -
  obtain x where x: "x < 16" "unat t = 224 + x" "t = of_nat (224 + x)"
    using lead3_split [OF assms(1,2)] by blast
  have c1lo: "0x80 \<le> c1" using assms(3) by (auto split: if_splits simp: word_le_nat_alt)
  obtain y where y: "y < 64" "unat c1 = 128 + y" "c1 = of_nat (128 + y)"
    using cont_split [OF c1lo assms(4)] by blast
  obtain z where z: "z < 64" "unat c2 = 128 + z" "c2 = of_nat (128 + z)"
    using cont_split [OF assms(5,6)] by blast
  have ov: "32 \<le> x * 64 + y"
  proof (cases "x = 0")
    case True
    then have "t = 0xe0" using x(3) by simp
    then have "0xa0 \<le> c1" using assms(3) by simp
    then show ?thesis using y(2) by (simp add: word_le_nat_alt)
  next
    case False
    then show ?thesis by simp
  qed
  define cp1 :: u32 where "cp1 = push_bit 6 (ucast (t AND 0x0f)) + ucast (c1 AND 0x3f)"
  define cp :: u32 where "cp = push_bit 6 cp1 + ucast (c2 AND 0x3f)"
  have v1: "unat cp1 = x * 64 + y"
    unfolding cp1_def using cont_step_val [OF unat_lead3 [OF x(2) x(1)] _ y(2) y(1)] x(1) by simp
  have v: "unat cp = (x * 64 + y) * 64 + z"
    unfolding cp_def using cont_step_val [OF v1 _ z(2) z(1)] x(1) y(1) by simp
  then have v': "unat cp = x * 4096 + y * 64 + z" by simp
  have nt: "\<not> t < 0x80" using assms(1) by (simp add: word_le_nat_alt word_less_nat_alt)
  have lead: "sanitize_lead t = Some (ucast (t AND 0x0f), 2, (if t = 0xe0 then 0xa0 else 0x80), 0xbf)"
    using assms(1,2) by (auto simp: sanitize_lead_def word_le_nat_alt)
  have conts: "sanitize_conts (ucast (t AND 0x0f)) 2 (if t = 0xe0 then 0xa0 else 0x80) 0xbf (c1 # c2 # p)
      = Inr (cp, p)"
    using assms(3-6) by (simp add: cp_def cp1_def Let_def)
  have pair: "sanitize_pair cp p = (cp, p)"
  proof (cases "0xd800 \<le> cp \<and> cp \<le> 0xdfff \<and> cp < 0xdc00")
    case False
    then show ?thesis by (auto simp: sanitize_pair_def)
  next
    case True
    then have r: "55296 \<le> x * 4096 + y * 64 + z" "x * 4096 + y * 64 + z < 56320"
      using v' by (simp_all add: word_le_nat_alt word_less_nat_alt)
    have "x = 13" using r x(1) y(1) z(1) by arith
    then have t: "t = 0xed" using x(3) by simp
    have "32 \<le> y" "y < 48" using r \<open>x = 13\<close> z(1) by arith+
    then have "0xa0 \<le> c1 \<and> c1 \<le> 0xaf" using y(2) by (simp add: word_le_nat_alt)
    then have "\<not> lo3_at p" using np t by simp
    then show ?thesis by (rule sanitize_pair_not_lo)
  qed
  have emit: "sanitize_emit cp = ([t, c1, c2], 2)"
    using emit3_nat [OF v' x(1) y(1) z(1) ov] x(3) y(3) z(3) by simp
  show ?thesis
    by (simp only: sanitize_iter_def nt lead conts pair emit if_False option.case prod.case sum.case)
qed


lemma iter_seq4:
  assumes "0xf0 \<le> t" "t \<le> 0xf4" "(if t = 0xf0 then 0x90 else 0x80) \<le> c1"
    "c1 \<le> (if t = 0xf4 then 0x8f else 0xbf)"
    "0x80 \<le> c2" "c2 \<le> 0xbf" "0x80 \<le> c3" "c3 \<le> 0xbf"
  shows "sanitize_iter t (c1 # c2 # c3 # p) = (([t, c1, c2, c3], 3), p)"
proof -
  obtain w where w: "w < 5" "unat t = 240 + w" "t = of_nat (240 + w)"
    using lead4_split [OF assms(1,2)] by blast
  have c1lo: "0x80 \<le> c1" using assms(3) by (auto split: if_splits simp: word_le_nat_alt)
  have c1hi: "c1 \<le> 0xbf" using assms(4) by (auto split: if_splits simp: word_le_nat_alt)
  obtain x where x: "x < 64" "unat c1 = 128 + x" "c1 = of_nat (128 + x)"
    using cont_split [OF c1lo c1hi] by blast
  obtain y where y: "y < 64" "unat c2 = 128 + y" "c2 = of_nat (128 + y)"
    using cont_split [OF assms(5,6)] by blast
  obtain z where z: "z < 64" "unat c3 = 128 + z" "c3 = of_nat (128 + z)"
    using cont_split [OF assms(7,8)] by blast
  have ov: "16 \<le> w * 64 + x"
  proof (cases "w = 0")
    case True
    then have "t = 0xf0" using w(3) by simp
    then have "0x90 \<le> c1" using assms(3) by simp
    then show ?thesis using x(2) by (simp add: word_le_nat_alt)
  next
    case False
    then show ?thesis by simp
  qed
  have w8: "w < 8" using w(1) by simp
  define cp1 :: u32 where "cp1 = push_bit 6 (ucast (t AND 0x07)) + ucast (c1 AND 0x3f)"
  define cp2 :: u32 where "cp2 = push_bit 6 cp1 + ucast (c2 AND 0x3f)"
  define cp :: u32 where "cp = push_bit 6 cp2 + ucast (c3 AND 0x3f)"
  have v1: "unat cp1 = w * 64 + x"
    unfolding cp1_def using cont_step_val [OF unat_lead4 [OF w(2) w8] _ x(2) x(1)] w(1) by simp
  have v2: "unat cp2 = (w * 64 + x) * 64 + y"
    unfolding cp2_def using cont_step_val [OF v1 _ y(2) y(1)] w(1) x(1) by simp
  have v: "unat cp = ((w * 64 + x) * 64 + y) * 64 + z"
    unfolding cp_def using cont_step_val [OF v2 _ z(2) z(1)] w(1) x(1) y(1) by simp
  then have v': "unat cp = w * 262144 + x * 4096 + y * 64 + z" by simp
  have nt: "\<not> t < 0x80" using assms(1) by (simp add: word_le_nat_alt word_less_nat_alt)
  have lead: "sanitize_lead t = Some (ucast (t AND 0x07), 3, (if t = 0xf0 then 0x90 else 0x80),
      (if t = 0xf4 then 0x8f else 0xbf))"
    using assms(1,2) by (auto simp: sanitize_lead_def word_le_nat_alt)
  have conts: "sanitize_conts (ucast (t AND 0x07)) 3 (if t = 0xf0 then 0x90 else 0x80)
      (if t = 0xf4 then 0x8f else 0xbf) (c1 # c2 # c3 # p) = Inr (cp, p)"
    using assms(3-8) by (simp add: cp_def cp1_def cp2_def Let_def)
  have "\<not> cp \<le> 0xdfff" using v' ov by (simp add: word_le_nat_alt)
  then have pair: "sanitize_pair cp p = (cp, p)"
    by (simp add: sanitize_pair_def)
  have emit: "sanitize_emit cp = ([t, c1, c2, c3], 3)"
    using emit4_nat [OF v' w8 x(1) y(1) z(1) ov] w(3) x(3) y(3) z(3) by simp
  show ?thesis
    by (simp only: sanitize_iter_def nt lead conts pair emit if_False option.case prod.case sum.case)
qed

lemma unat_of_nat_8: "unat (of_nat n :: u8) = n mod 256"
  by (simp add: unat_of_nat)

lemma emit4_enc:
  assumes "\<not> (cp::u32) \<le> 0xffff"
  shows "sanitize_emit cp = (utf8_enc4 (unat cp), 3)"
proof -
  have lt: "unat cp < 4294967296" using unsigned_less [of cp, where 'a=nat] by simp
  have n7: "\<not> cp \<le> 0x7ff" using assms by (simp add: word_le_nat_alt)
  have b0: "(ucast (0xf0 + drop_bit 18 cp :: u32) :: u8) = of_nat (240 + unat cp div 262144)"
    using lt by (simp only: word_unat_eq_iff unat_ucast_32_8 unat_add_32 unat_drop_32 unat_of_nat_8) simp
  have b1: "(ucast (0x80 + (drop_bit 12 cp AND 0x3f) :: u32) :: u8) = of_nat (128 + unat cp div 4096 mod 64)"
    by (simp only: word_unat_eq_iff unat_ucast_32_8 unat_add_32 unat_drop_32 unat_and_3f_32 unat_of_nat_8) simp
  have b2: "(ucast (0x80 + (drop_bit 6 cp AND 0x3f) :: u32) :: u8) = of_nat (128 + unat cp div 64 mod 64)"
    by (simp only: word_unat_eq_iff unat_ucast_32_8 unat_add_32 unat_drop_32 unat_and_3f_32 unat_of_nat_8) simp
  have b3: "(ucast (0x80 + (cp AND 0x3f) :: u32) :: u8) = of_nat (128 + unat cp mod 64)"
    by (simp only: word_unat_eq_iff unat_ucast_32_8 unat_add_32 unat_and_3f_32 unat_of_nat_8) simp
  show ?thesis
    using assms n7 by (simp only: sanitize_emit_def utf8_enc4_def b0 b1 b2 b3 if_False)
qed


lemma unat_ucast_and_3f: "unat ((ucast (c::u8) :: u32) AND 0x3f) = unat c mod 64"
  by (simp only: unat_and_3f_32 unat_ucast_8_32)

lemma unat_ucast_and_0f: "unat ((ucast (c::u8) :: u32) AND 0x0f) = unat c mod 16"
  by (simp only: unat_and_0f_32 unat_ucast_8_32)

lemma cont_mod: "unat (c::u8) = 128 + y \<Longrightarrow> y < 64 \<Longrightarrow> unat c mod 64 = y"
  using mod_window [of y 64 2] by simp

lemma decode_known_ascii:
  assumes "t \<le> 0x7f"
  shows "duk_unicode_wtf8_decode_known (t # p) = Some (ucast t)"
  using assms by (simp add: duk_unicode_wtf8_decode_known_def)

lemma decode_known_seq2:
  assumes "unat t = 192 + x" "x < 32" "unat c1 = 128 + y" "y < 64"
  shows "\<exists>cp. duk_unicode_wtf8_decode_known (t # c1 # p) = Some cp \<and> unat cp = x * 64 + y"
proof -
  have r: "\<not> t \<le> 0x7f" "t \<le> 0xdf"
    using assms(1,2) by (simp_all add: word_le_nat_alt)
  define cp :: u32 where "cp = push_bit 6 (ucast (t AND 0x1f)) + (ucast c1 AND 0x3f)"
  have "duk_unicode_wtf8_decode_known (t # c1 # p) = Some cp"
    using r by (simp add: duk_unicode_wtf8_decode_known_def cp_def)
  moreover have "unat cp = x * 64 + y"
    unfolding cp_def using assms(2,4)
    by (simp only: unat_add_32 unat_push_32 unat_ucast_and_3f unat_lead2 [OF assms(1,2)]
          cont_mod [OF assms(3,4)]) simp
  ultimately show ?thesis by blast
qed

lemma decode_known_seq3:
  assumes "unat t = 224 + x" "x < 16" "unat c1 = 128 + y" "y < 64" "unat c2 = 128 + z" "z < 64"
  shows "\<exists>cp. duk_unicode_wtf8_decode_known (t # c1 # c2 # p) = Some cp
            \<and> unat cp = x * 4096 + y * 64 + z"
proof -
  have r: "\<not> t \<le> 0x7f" "\<not> t \<le> 0xdf" "t \<le> 0xef"
    using assms(1,2) by (simp_all add: word_le_nat_alt)
  define cp :: u32 where
    "cp = push_bit 12 (ucast (t AND 0x0f)) + push_bit 6 (ucast c1 AND 0x3f) + (ucast c2 AND 0x3f)"
  have "duk_unicode_wtf8_decode_known (t # c1 # c2 # p) = Some cp"
    using r by (simp add: duk_unicode_wtf8_decode_known_def cp_def)
  moreover have "unat cp = x * 4096 + y * 64 + z"
    unfolding cp_def using assms(2,4,6)
    by (simp only: unat_add_32 unat_push_32 unat_ucast_and_3f unat_lead3 [OF assms(1,2)]
          cont_mod [OF assms(3,4)] cont_mod [OF assms(5,6)]) simp
  ultimately show ?thesis by blast
qed

lemma decode_known_seq4:
  assumes "unat t = 240 + w" "w < 8" "unat c1 = 128 + x" "x < 64" "unat c2 = 128 + y" "y < 64"
    "unat c3 = 128 + z" "z < 64"
  shows "\<exists>cp. duk_unicode_wtf8_decode_known (t # c1 # c2 # c3 # p) = Some cp
            \<and> unat cp = w * 262144 + x * 4096 + y * 64 + z"
proof -
  have r: "\<not> t \<le> 0x7f" "\<not> t \<le> 0xdf" "\<not> t \<le> 0xef"
    using assms(1,2) by (simp_all add: word_le_nat_alt)
  define cp :: u32 where
    "cp = push_bit 18 (ucast (t AND 0x07)) + push_bit 12 (ucast c1 AND 0x3f)
          + push_bit 6 (ucast c2 AND 0x3f) + (ucast c3 AND 0x3f)"
  have "duk_unicode_wtf8_decode_known (t # c1 # c2 # c3 # p) = Some cp"
    using r by (simp add: duk_unicode_wtf8_decode_known_def cp_def)
  moreover have "unat cp = w * 262144 + x * 4096 + y * 64 + z"
    unfolding cp_def using assms(2,4,6,8)
    by (simp only: unat_add_32 unat_push_32 unat_ucast_and_3f unat_lead4 [OF assms(1,2)]
          cont_mod [OF assms(3,4)] cont_mod [OF assms(5,6)] cont_mod [OF assms(7,8)]) simp
  ultimately show ?thesis by blast
qed

lemma lo3_split:
  assumes "lo3_at p"
  shows "\<exists>l1 l2 r u v. p = 0xed # l1 # l2 # r \<and> u < 16 \<and> v < 64 \<and> unat l1 = 176 + u
           \<and> unat l2 = 128 + v"
proof -
  obtain l0 l1 l2 r where p: "p = l0 # l1 # l2 # r"
    using assms unfolding lo3_at_def
    by (cases p; cases "tl p"; cases "tl (tl p)") auto
  have b: "l0 = 0xed" "0xb0 \<le> l1" "l1 \<le> 0xbf" "0x80 \<le> l2" "l2 \<le> 0xbf"
    using assms unfolding lo3_at_def p by simp_all
  have 1: "176 \<le> unat l1" "unat l1 \<le> 191" using b by (simp_all add: word_le_nat_alt)
  have 2: "128 \<le> unat l2" "unat l2 \<le> 191" using b by (simp_all add: word_le_nat_alt)
  have "unat l1 = 176 + (unat l1 - 176)" "unat l1 - 176 < 16" using 1 by arith+
  moreover have "unat l2 = 128 + (unat l2 - 128)" "unat l2 - 128 < 64" using 2 by arith+
  ultimately show ?thesis using p b(1) by blast
qed

lemma sanitize_pair_lo:
  assumes "unat cp = 55296 + h" "h < 1024" "unat l1 = 176 + u" "u < 16" "unat l2 = 128 + v" "v < 64"
  shows "\<exists>cp'. sanitize_pair cp (0xed # l1 # l2 # r) = (cp', r)
           \<and> unat cp' = 65536 + h * 1024 + u * 64 + v"
proof -
  have c: "0xd800 \<le> cp" "cp \<le> 0xdfff" "cp < 0xdc00"
    using assms(1,2) by (simp_all add: word_le_nat_alt word_less_nat_alt)
  have l: "0xb0 \<le> l1" "l1 \<le> 0xbf" "0x80 \<le> l2" "l2 \<le> 0xbf"
    using assms(3-6) by (simp_all add: word_le_nat_alt)
  define cp' :: u32 where
    "cp' = 0x10000 + push_bit 10 (cp AND 0x3ff) + (push_bit 6 ((ucast l1 :: u32) AND 0x0f) + ((ucast l2 :: u32) AND 0x3f))"
  have e: "sanitize_pair cp (0xed # l1 # l2 # r) = (cp', r)"
    unfolding sanitize_pair_def Let_def cp'_def using c l by simp
  have hm: "unat cp mod 1024 = h"
    using mod_window [of h 1024 54] assms(1,2) by simp
  have um: "unat l1 mod 16 = u"
    using mod_window [of u 16 11] assms(3,4) by simp
  have "unat cp' = 65536 + h * 1024 + u * 64 + v"
    unfolding cp'_def using assms(2,4,6)
    by (simp only: unat_add_32 unat_push_32 unat_and_3ff_32 unat_ucast_and_0f unat_ucast_and_3f
         hm um cont_mod [OF assms(5,6)]) simp
  then show ?thesis using e by blast
qed


lemma seq3_split:
  assumes "seq3_at p"
  shows "\<exists>t c1 c2 r x y z. p = t # c1 # c2 # r \<and> x < 16 \<and> y < 64 \<and> z < 64
           \<and> unat t = 224 + x \<and> unat c1 = 128 + y \<and> unat c2 = 128 + z
           \<and> t = of_nat (224 + x) \<and> c1 = of_nat (128 + y) \<and> c2 = of_nat (128 + z)
           \<and> 32 \<le> x * 64 + y \<and> scalar_at p = x * 4096 + y * 64 + z"
proof -
  obtain t c1 c2 r where p: "p = t # c1 # c2 # r"
    using assms unfolding seq3_at_def
    by (cases p; cases "tl p"; cases "tl (tl p)") auto
  have b: "0xe0 \<le> t" "t \<le> 0xef" "wtf8_lower t \<le> c1" "c1 \<le> 0xbf" "0x80 \<le> c2" "c2 \<le> 0xbf"
    using assms unfolding seq3_at_def p by simp_all
  obtain x where x: "x < 16" "unat t = 224 + x" "t = of_nat (224 + x)"
    using lead3_split [OF b(1,2)] by blast
  have c1lo: "0x80 \<le> c1"
    using b(3) by (auto simp: wtf8_lower_def word_le_nat_alt split: if_splits)
  obtain y where y: "y < 64" "unat c1 = 128 + y" "c1 = of_nat (128 + y)"
    using cont_split [OF c1lo b(4)] by blast
  obtain z where z: "z < 64" "unat c2 = 128 + z" "c2 = of_nat (128 + z)"
    using cont_split [OF b(5,6)] by blast
  have ov: "32 \<le> x * 64 + y"
  proof (cases "x = 0")
    case True
    then have "t = 0xe0" using x(3) by simp
    then have "0xa0 \<le> c1" using b(3) by (simp add: wtf8_lower_def)
    then show ?thesis using y(2) by (simp add: word_le_nat_alt)
  next
    case False
    then show ?thesis by simp
  qed
  obtain cp where "duk_unicode_wtf8_decode_known (t # c1 # c2 # r) = Some cp"
    "unat cp = x * 4096 + y * 64 + z"
    using decode_known_seq3 [OF x(2) x(1) y(2) y(1) z(2) z(1)] by blast
  then have "scalar_at p = x * 4096 + y * 64 + z"
    by (simp add: scalar_at_def p)
  then show ?thesis using p x y z ov by blast
qed

lemma low_surrogate_lo3: "low_surrogate_at p = lo3_at p"
proof
  assume a: "low_surrogate_at p"
  then have s: "seq3_at p" and r: "0xdc00 \<le> scalar_at p" "scalar_at p \<le> 0xdfff"
    by (simp_all add: low_surrogate_at_def)
  obtain t c1 c2 r' x y z where p: "p = t # c1 # c2 # r'" and b: "x < 16" "y < 64" "z < 64"
    and u: "unat t = 224 + x" "unat c1 = 128 + y" "unat c2 = 128 + z"
    and w: "t = of_nat (224 + x)"
    and v: "scalar_at p = x * 4096 + y * 64 + z"
    using seq3_split [OF s] by blast
  have r': "56320 \<le> x * 4096 + y * 64 + z" "x * 4096 + y * 64 + z \<le> 57343"
    using r v by simp_all
  have "x = 13" using r' b by arith
  then have t: "t = 0xed" using w by simp
  have "48 \<le> y" using r' \<open>x = 13\<close> b by arith
  then have "0xb0 \<le> c1" "c1 \<le> 0xbf" "0x80 \<le> c2" "c2 \<le> 0xbf"
    using u b by (simp_all add: word_le_nat_alt)
  then show "lo3_at p" using t by (simp add: lo3_at_def p)
next
  assume a: "lo3_at p"
  obtain l1 l2 r u v where p: "p = 0xed # l1 # l2 # r" and b: "u < 16" "v < 64"
    and n: "unat l1 = 176 + u" "unat l2 = 128 + v"
    using lo3_split [OF a] by blast
  have n1: "unat l1 = 128 + (48 + u)" "48 + u < 64" using n b by simp_all
  have t: "unat (0xed::u8) = 224 + 13" by simp
  obtain cp where "duk_unicode_wtf8_decode_known (0xed # l1 # l2 # r) = Some cp"
    "unat cp = 13 * 4096 + (48 + u) * 64 + v"
    using decode_known_seq3 [OF t _ n1 n(2) b(2)] by auto
  then have v: "scalar_at p = 56320 + u * 64 + v"
    by (simp add: scalar_at_def p)
  have "seq3_at p"
    using a by (simp add: seq3_at_def lo3_at_def p wtf8_lower_def word_le_nat_alt)
  then show "low_surrogate_at p"
    using v b by (simp add: low_surrogate_at_def)
qed


lemma lo3_scalar:
  assumes "lo3_at p"
  shows "\<exists>l1 l2 r u v. p = 0xed # l1 # l2 # r \<and> u < 16 \<and> v < 64 \<and> unat l1 = 176 + u
           \<and> unat l2 = 128 + v \<and> scalar_at p = 56320 + u * 64 + v"
proof -
  obtain l1 l2 r u v where p: "p = 0xed # l1 # l2 # r" and b: "u < 16" "v < 64"
    and n: "unat l1 = 176 + u" "unat l2 = 128 + v"
    using lo3_split [OF assms] by blast
  have n1: "unat l1 = 128 + (48 + u)" "48 + u < 64" using n b by simp_all
  have t: "unat (0xed::u8) = 224 + 13" by simp
  obtain cp where "duk_unicode_wtf8_decode_known (0xed # l1 # l2 # r) = Some cp"
    "unat cp = 13 * 4096 + (48 + u) * 64 + v"
    using decode_known_seq3 [OF t _ n1 n(2) b(2)] by auto
  then have "scalar_at p = 56320 + u * 64 + v"
    by (simp add: scalar_at_def p)
  then show ?thesis using p b n by blast
qed

lemma iter_pair:
  assumes "high_surrogate_at (t # c1 # c2 # p)" "lo3_at p"
  shows "sanitize_iter t (c1 # c2 # p) =
    ((utf8_enc4 (combine_surrogates (scalar_at (t # c1 # c2 # p)) (scalar_at p)), 3), drop 3 p)"
proof -
  have s: "seq3_at (t # c1 # c2 # p)"
    and r: "0xd800 \<le> scalar_at (t # c1 # c2 # p)" "scalar_at (t # c1 # c2 # p) \<le> 0xdbff"
    using assms(1) by (simp_all add: high_surrogate_at_def)
  obtain x y z where b: "x < 16" "y < 64" "z < 64"
    and u: "unat t = 224 + x" "unat c1 = 128 + y" "unat c2 = 128 + z"
    and sv: "scalar_at (t # c1 # c2 # p) = x * 4096 + y * 64 + z"
    using seq3_split [OF s] by auto
  have tr: "0xe0 \<le> t" "t \<le> 0xef" "wtf8_lower t \<le> c1" "c1 \<le> 0xbf" "0x80 \<le> c2" "c2 \<le> 0xbf"
    using s by (simp_all add: seq3_at_def)
  have lw: "wtf8_lower t = (if t = 0xe0 then 0xa0 else 0x80)"
    using tr(2) by (auto simp: wtf8_lower_def)
  define h where "h = x * 4096 + y * 64 + z - 55296"
  have h: "x * 4096 + y * 64 + z = 55296 + h" "h < 1024"
    using r sv by (simp_all add: h_def)
  define cp1 :: u32 where "cp1 = push_bit 6 (ucast (t AND 0x0f)) + ucast (c1 AND 0x3f)"
  define cp :: u32 where "cp = push_bit 6 cp1 + ucast (c2 AND 0x3f)"
  have v1: "unat cp1 = x * 64 + y"
    unfolding cp1_def using cont_step_val [OF unat_lead3 [OF u(1) b(1)] _ u(2) b(2)] b(1) by simp
  have "unat cp = (x * 64 + y) * 64 + z"
    unfolding cp_def using cont_step_val [OF v1 _ u(3) b(3)] b(1,2) by simp
  then have v: "unat cp = 55296 + h" using h(1) by simp
  have nt: "\<not> t < 0x80" using tr(1) by (simp add: word_le_nat_alt word_less_nat_alt)
  have lead: "sanitize_lead t = Some (ucast (t AND 0x0f), 2, (if t = 0xe0 then 0xa0 else 0x80), 0xbf)"
    using tr(1,2) by (auto simp: sanitize_lead_def word_le_nat_alt)
  have conts: "sanitize_conts (ucast (t AND 0x0f)) 2 (if t = 0xe0 then 0xa0 else 0x80) 0xbf (c1 # c2 # p)
      = Inr (cp, p)"
    using tr(3-6) lw by (simp add: cp_def cp1_def Let_def)
  obtain l1 l2 rest a d where p: "p = 0xed # l1 # l2 # rest" and ad: "a < 16" "d < 64"
    and n: "unat l1 = 176 + a" "unat l2 = 128 + d" and lv: "scalar_at p = 56320 + a * 64 + d"
    using lo3_scalar [OF assms(2)] by blast
  obtain cp' where pair: "sanitize_pair cp p = (cp', rest)"
    and v': "unat cp' = 65536 + h * 1024 + a * 64 + d"
    using sanitize_pair_lo [OF v h(2) n(1) ad(1) n(2) ad(2)] p by blast
  have "\<not> cp' \<le> 0xffff" using v' by (simp add: word_le_nat_alt)
  then have emit: "sanitize_emit cp' = (utf8_enc4 (unat cp'), 3)"
    by (rule emit4_enc)
  have comb: "combine_surrogates (scalar_at (t # c1 # c2 # p)) (scalar_at p) = unat cp'"
    using sv lv h v' by (simp add: combine_surrogates_def)
  have d3: "drop 3 p = rest" by (simp add: p)
  show ?thesis
    by (simp only: sanitize_iter_def nt lead conts pair emit comb d3 if_False option.case
          prod.case sum.case)
qed

section \<open>The loop body and the events of the specification\<close>

lemma conts_fail:
  "wtf8_good_conts lower upper n p = k \<Longrightarrow> k < n
   \<Longrightarrow> sanitize_conts cp (int n) lower upper p = Inl (drop k p)"
proof (induction p arbitrary: n k cp lower upper)
  case Nil
  then show ?case by simp
next
  case (Cons c p)
  obtain n' where n: "n = Suc n'" using Cons.prems(2) by (cases n) auto
  show ?case
  proof (cases "lower \<le> c \<and> c \<le> upper")
    case False
    then have "k = 0" using Cons.prems(1) n by auto
    then show ?thesis using False by auto
  next
    case True
    then have k: "k = Suc (wtf8_good_conts 0x80 0xbf n' p)"
      using Cons.prems(1) n by simp
    then have lt: "wtf8_good_conts 0x80 0xbf n' p < n'" using Cons.prems(2) n by simp
    then have "n' \<noteq> 0" by simp
    then have ne: "int n - 1 \<noteq> 0" "int n - 1 = int n'" using n by simp_all
    show ?thesis
      using True ne k Cons.IH [OF refl lt, of "push_bit 6 cp + ucast (c AND 0x3f)"]
      by (simp add: Let_def)
  qed
qed

lemma lead_some:
  assumes "\<not> t \<le> 0x7f" "\<not> wtf8_invalid_lead t"
  shows "\<exists>cp. sanitize_lead t = Some (cp, int (wtf8_width t - 1), wtf8_lower t, wtf8_upper t)"
proof -
  have r: "0xc2 \<le> t" "t \<le> 0xf4"
    using assms by (simp_all add: wtf8_invalid_lead_def word_le_nat_alt)
  show ?thesis
    using r assms(1)
    by (auto simp: sanitize_lead_def wtf8_width_def wtf8_lower_def wtf8_upper_def word_le_nat_alt)
qed

lemma lead_none:
  assumes "\<not> t \<le> 0x7f" "wtf8_invalid_lead t"
  shows "sanitize_lead t = None"
  using assms by (auto simp: sanitize_lead_def wtf8_invalid_lead_def word_le_nat_alt)

lemma good_conts_1:
  assumes "wtf8_good_conts lower upper 1 p = 1"
  shows "\<exists>c r. p = c # r \<and> lower \<le> c \<and> c \<le> upper"
  using assms by (cases p) (auto split: if_splits)

lemma good_conts_2:
  assumes "wtf8_good_conts lower upper 2 p = 2"
  shows "\<exists>c1 c2 r. p = c1 # c2 # r \<and> lower \<le> c1 \<and> c1 \<le> upper \<and> 0x80 \<le> c2 \<and> c2 \<le> 0xbf"
proof -
  have e: "wtf8_good_conts lower upper (Suc (Suc 0)) p = Suc (Suc 0)"
    using assms by (simp add: numeral_2_eq_2)
  then obtain c1 p1 where p: "p = c1 # p1" by (cases p) auto
  then have a: "lower \<le> c1 \<and> c1 \<le> upper" "wtf8_good_conts 0x80 0xbf (Suc 0) p1 = Suc 0"
    using e by (auto split: if_splits)
  then obtain c2 r where "p1 = c2 # r" "0x80 \<le> c2 \<and> c2 \<le> 0xbf"
    using good_conts_1 [of "0x80" "0xbf" p1] by auto
  then show ?thesis using p a by blast
qed

lemma good_conts_3:
  assumes "wtf8_good_conts lower upper 3 p = 3"
  shows "\<exists>c1 c2 c3 r. p = c1 # c2 # c3 # r \<and> lower \<le> c1 \<and> c1 \<le> upper \<and> 0x80 \<le> c2 \<and> c2 \<le> 0xbf
           \<and> 0x80 \<le> c3 \<and> c3 \<le> 0xbf"
proof -
  have e: "wtf8_good_conts lower upper (Suc (Suc (Suc 0))) p = Suc (Suc (Suc 0))"
    using assms by (simp add: numeral_3_eq_3)
  then obtain c1 p1 where p: "p = c1 # p1" by (cases p) auto
  then have "lower \<le> c1 \<and> c1 \<le> upper"
    "wtf8_good_conts 0x80 0xbf (Suc (Suc 0)) p1 = Suc (Suc 0)"
    using e by (auto split: if_splits)
  then have a: "lower \<le> c1 \<and> c1 \<le> upper" "wtf8_good_conts 0x80 0xbf 2 p1 = 2"
    by (simp_all add: numeral_2_eq_2)
  then obtain c2 c3 r where "p1 = c2 # c3 # r" "0x80 \<le> c2 \<and> c2 \<le> 0xbf" "0x80 \<le> c3 \<and> c3 \<le> 0xbf"
    using good_conts_2 [of "0x80" "0xbf" p1] by auto
  then show ?thesis using p a by blast
qed

lemma good_conts_le: "wtf8_good_conts lower upper n p \<le> n"
  by (induction lower upper n p rule: wtf8_good_conts.induct) auto

lemma iter_ascii: "t \<le> 0x7f \<Longrightarrow> sanitize_iter t p = (([t], 0), p)"
  by (simp add: sanitize_iter_def word_le_nat_alt word_less_nat_alt)

lemma not_ascii: "\<not> t \<le> 0x7f \<Longrightarrow> \<not> (t::u8) < 0x80"
  by (simp add: word_le_nat_alt word_less_nat_alt)

lemma iter_invalid_lead:
  assumes "\<not> t \<le> 0x7f" "wtf8_invalid_lead t"
  shows "sanitize_iter t p = (([0xef, 0xbf, 0xbd], 2), p)"
  using not_ascii [OF assms(1)] lead_none [OF assms]
  by (simp add: sanitize_iter_def replacement_def)

lemma iter_invalid_conts:
  assumes "\<not> t \<le> 0x7f" "\<not> wtf8_invalid_lead t"
    "wtf8_good_conts (wtf8_lower t) (wtf8_upper t) (wtf8_width t - 1) p = k" "k < wtf8_width t - 1"
  shows "sanitize_iter t p = (([0xef, 0xbf, 0xbd], 2), drop k p)"
proof -
  obtain cp where l: "sanitize_lead t = Some (cp, int (wtf8_width t - 1), wtf8_lower t, wtf8_upper t)"
    using lead_some [OF assms(1,2)] by blast
  have c: "sanitize_conts cp (int (wtf8_width t - 1)) (wtf8_lower t) (wtf8_upper t) p = Inl (drop k p)"
    by (rule conts_fail [OF assms(3,4)])
  show ?thesis
    using not_ascii [OF assms(1)]
    by (simp only: sanitize_iter_def l c replacement_def if_False option.case prod.case sum.case)
qed

lemma lead_ranges:
  assumes "\<not> t \<le> 0x7f" "\<not> wtf8_invalid_lead t"
  shows "0xc2 \<le> t" "t \<le> 0xf4"
  using assms by (simp_all add: wtf8_invalid_lead_def word_le_nat_alt)

lemma high_surrogate_needs_3:
  "high_surrogate_at p \<Longrightarrow> 0xe0 \<le> p ! 0 \<and> p ! 0 \<le> 0xef"
  by (simp add: high_surrogate_at_def seq3_at_def)

lemma high_surrogate_bytes:
  assumes "c1 \<le> 0xbf" "0x80 \<le> c2" "c2 \<le> 0xbf" "0xa0 \<le> c1" "c1 \<le> 0xaf"
  shows "high_surrogate_at (0xed # c1 # c2 # p)"
proof -
  have s: "seq3_at (0xed # c1 # c2 # p)"
    using assms by (simp add: seq3_at_def wtf8_lower_def word_le_nat_alt)
  obtain x y z where b: "x < 16" "y < 64" "z < 64"
    and u: "unat (0xed::u8) = 224 + x" "unat c1 = 128 + y" "unat c2 = 128 + z"
    and sv: "scalar_at (0xed # c1 # c2 # p) = x * 4096 + y * 64 + z"
    using seq3_split [OF s] by auto
  have "x = 13" using u(1) by simp
  moreover have "32 \<le> y" "y < 48" using assms(4,5) u(2) by (simp_all add: word_le_nat_alt)
  ultimately show ?thesis using s sv b by (simp add: high_surrogate_at_def)
qed

lemma sanitize_iter_event: "sanitize_iter t p = wtf8_event_step t p"
proof (cases "t \<le> 0x7f")
  case True
  then show ?thesis
    by (simp add: iter_ascii wtf8_event_step_def wtf8_event_at_def)
next
  case na: False
  show ?thesis
  proof (cases "wtf8_invalid_lead t")
    case True
    then show ?thesis
      using na by (simp add: iter_invalid_lead wtf8_event_step_def wtf8_event_at_def)
  next
    case nl: False
    define n where "n = wtf8_width t - 1"
    define k where "k = wtf8_good_conts (wtf8_lower t) (wtf8_upper t) n p"
    have kn: "k \<le> n" unfolding k_def by (rule good_conts_le)
    note r = lead_ranges [OF na nl]
    show ?thesis
    proof (cases "k < n")
      case True
      have "sanitize_iter t p = (([0xef, 0xbf, 0xbd], 2), drop k p)"
        using iter_invalid_conts [OF na nl] True by (simp add: k_def n_def)
      moreover have "wtf8_event_at t p = Invalid (1 + k)"
        using na nl True by (simp add: wtf8_event_at_def Let_def k_def n_def)
      ultimately show ?thesis by (simp add: wtf8_event_step_def)
    next
      case False
      then have kn: "wtf8_good_conts (wtf8_lower t) (wtf8_upper t) n p = n"
        using kn by (simp add: k_def)
      have ev: "wtf8_event_at t p =
          (if high_surrogate_at (t # p) \<and> low_surrogate_at (drop 2 p) then SurrogatePair
           else Scalar (1 + n))"
        using na nl kn by (simp add: wtf8_event_at_def Let_def n_def)
      consider (two) "t \<le> 0xdf" | (three) "\<not> t \<le> 0xdf" "t \<le> 0xef" | (four) "\<not> t \<le> 0xef"
        by blast
      then show ?thesis
      proof cases
        case two
        then have n1: "n = 1" using na by (simp add: n_def wtf8_width_def)
        have lu: "wtf8_lower t = 0x80" "wtf8_upper t = 0xbf"
          using two by (auto simp: wtf8_lower_def wtf8_upper_def)
        obtain c rest where p: "p = c # rest" and c: "0x80 \<le> c" "c \<le> 0xbf"
          using good_conts_1 [of "0x80" "0xbf" p] kn n1 lu by auto
        have "\<not> high_surrogate_at (t # p)"
          using high_surrogate_needs_3 [of "t # p"] two by (auto simp: word_le_nat_alt)
        then have "wtf8_event_at t p = Scalar 2" using ev n1 by simp
        then show ?thesis
          using iter_seq2 [OF r(1) two c] by (simp add: wtf8_event_step_def p)
      next
        case three
        then have n2: "n = 2" using na by (simp add: n_def wtf8_width_def)
        have lu: "wtf8_lower t = (if t = 0xe0 then 0xa0 else 0x80)" "wtf8_upper t = 0xbf"
          using three by (auto simp: wtf8_lower_def wtf8_upper_def)
        obtain c1 c2 rest where p: "p = c1 # c2 # rest"
          and c: "(if t = 0xe0 then 0xa0 else 0x80) \<le> c1" "c1 \<le> 0xbf" "0x80 \<le> c2" "c2 \<le> 0xbf"
          using good_conts_2 [of "wtf8_lower t" "wtf8_upper t" p] kn n2 lu by auto
        have t3: "0xe0 \<le> t" using three(1) by (simp add: word_le_nat_alt)
        show ?thesis
        proof (cases "high_surrogate_at (t # p) \<and> low_surrogate_at (drop 2 p)")
          case True
          then have "high_surrogate_at (t # c1 # c2 # rest)" "lo3_at rest"
            by (simp_all add: p low_surrogate_lo3)
          then show ?thesis
            using iter_pair [of t c1 c2 rest] ev True by (simp add: wtf8_event_step_def p)
        next
          case False
          have "\<not> lo3_at rest" if "t = 0xed \<and> 0xa0 \<le> c1 \<and> c1 \<le> 0xaf"
            using high_surrogate_bytes [OF c(2,3,4), of rest] that False
            by (simp add: p low_surrogate_lo3)
          then have "sanitize_iter t (c1 # c2 # rest) = (([t, c1, c2], 2), rest)"
            using iter_seq3 [OF t3 three(2) c] by blast
          then show ?thesis
            using ev False n2 by (simp add: wtf8_event_step_def p)
        qed
      next
        case four
        then have n3: "n = 3" using na by (auto simp: n_def wtf8_width_def word_le_nat_alt)
        have lu: "wtf8_lower t = (if t = 0xf0 then 0x90 else 0x80)"
          "wtf8_upper t = (if t = 0xf4 then 0x8f else 0xbf)"
          using four by (auto simp: wtf8_lower_def wtf8_upper_def)
        obtain c1 c2 c3 rest where p: "p = c1 # c2 # c3 # rest"
          and c: "(if t = 0xf0 then 0x90 else 0x80) \<le> c1" "c1 \<le> (if t = 0xf4 then 0x8f else 0xbf)"
            "0x80 \<le> c2" "c2 \<le> 0xbf" "0x80 \<le> c3" "c3 \<le> 0xbf"
          using good_conts_3 [of "wtf8_lower t" "wtf8_upper t" p] kn n3 lu by auto
        have t4: "0xf0 \<le> t" using four by (simp add: word_le_nat_alt)
        have "\<not> high_surrogate_at (t # p)"
          using high_surrogate_needs_3 [of "t # p"] four by auto
        then have "wtf8_event_at t p = Scalar 4" using ev n3 by simp
        then show ?thesis
          using iter_seq4 [OF t4 r(2) c] by (simp add: wtf8_event_step_def p)
      qed
    qed
  qed
qed

section \<open>Complete sequences and the validator\<close>

lemma good_conts_length: "wtf8_good_conts lower upper n p = n \<Longrightarrow> n \<le> length p"
  by (induction lower upper n p rule: wtf8_good_conts.induct) (auto split: if_splits)

lemma good_conts_append:
  "wtf8_good_conts lower upper n p = n \<Longrightarrow> wtf8_good_conts lower upper n (p @ ys) = n"
  by (induction lower upper n p rule: wtf8_good_conts.induct) (auto split: if_splits)

lemma good_conts_take:
  "wtf8_good_conts lower upper n p = n \<Longrightarrow> wtf8_good_conts lower upper n (take n p) = n"
  by (induction lower upper n p rule: wtf8_good_conts.induct) (auto split: if_splits)

lemma good_conts_prefix:
  "wtf8_good_conts lower upper n (p @ ys) = n \<Longrightarrow> n \<le> length p
   \<Longrightarrow> wtf8_good_conts lower upper n p = n"
  by (induction lower upper n p rule: wtf8_good_conts.induct) (auto split: if_splits)

lemma width_pos: "0 < wtf8_width t"
  by (simp add: wtf8_width_def)

lemma seq_at_length: "seq_at t p \<Longrightarrow> wtf8_width t - 1 \<le> length p"
  unfolding seq_at_def using good_conts_length by blast

lemma seq_at_take_append:
  "seq_at t p \<Longrightarrow> seq_at t (take (wtf8_width t - 1) p @ ys)"
  by (simp add: seq_at_def good_conts_take good_conts_append)

lemma wf_seq_scalar: "seq_at t p \<Longrightarrow> wf_seq (t # take (wtf8_width t - 1) p)"
  using seq_at_length [of t p] width_pos [of t]
  by (simp add: wf_seq_def seq_at_def good_conts_take)

lemma wf_seq_replacement: "wf_seq [0xef, 0xbf, 0xbd]"
proof -
  have w: "wtf8_width (0xef::u8) = 3" "wtf8_lower 0xef = 0x80" "wtf8_upper 0xef = 0xbf"
    "\<not> wtf8_invalid_lead 0xef" "\<not> (0xef::u8) \<le> 0x7f"
    by (simp_all add: wtf8_width_def wtf8_lower_def wtf8_upper_def wtf8_invalid_lead_def)
  have "wtf8_good_conts 0x80 0xbf (Suc (Suc 0)) [0xbf, 0xbd] = Suc (Suc 0)"
    by simp
  then have g: "wtf8_good_conts 0x80 0xbf 2 [0xbf, 0xbd] = 2"
    by (simp only: numeral_2_eq_2)
  show ?thesis
    by (simp add: wf_seq_def seq_at_def w g)
qed

lemma valid_unfold:
  "duk_unicode_is_valid_wtf8 (t # p) =
     (if t \<le> 0x7f then duk_unicode_is_valid_wtf8 p
      else seq_at t p \<and> duk_unicode_is_valid_wtf8 (drop (wtf8_width t - 1) p))"
proof (cases "t \<le> 0x7f")
  case True
  then show ?thesis by simp
next
  case na: False
  show ?thesis
  proof (cases "wtf8_invalid_lead t")
    case True
    then have "t \<le> 0xc1 \<or> \<not> t \<le> 0xf4"
      by (auto simp: wtf8_invalid_lead_def word_le_nat_alt)
    then have "\<not> duk_unicode_is_valid_wtf8 (t # p)"
      using na by (auto simp: word_le_nat_alt)
    then show ?thesis using na True by (simp add: seq_at_def)
  next
    case nl: False
    note r = lead_ranges [OF na nl]
    have nc1: "\<not> t \<le> 0xc1" using r(1) by (simp add: word_le_nat_alt)
    consider (two) "t \<le> 0xdf" | (three) "\<not> t \<le> 0xdf" "t \<le> 0xef" | (four) "\<not> t \<le> 0xef"
      by blast
    then show ?thesis
    proof cases
      case two
      then have w: "wtf8_width t = 2" "wtf8_lower t = 0x80" "wtf8_upper t = 0xbf"
        using na by (auto simp: wtf8_width_def wtf8_lower_def wtf8_upper_def)
      show ?thesis
        using na nl nc1 two by (cases p) (auto simp: seq_at_def w numeral_2_eq_2)
    next
      case three
      then have w: "wtf8_width t = 3"
        "wtf8_lower t = (if t = 0xe0 then 0xa0 else 0x80)" "wtf8_upper t = 0xbf"
        using na by (auto simp: wtf8_width_def wtf8_lower_def wtf8_upper_def)
      show ?thesis
        using na nl nc1 three
        by (cases p; cases "tl p") (auto simp: seq_at_def w Let_def numeral_2_eq_2 numeral_3_eq_3)
    next
      case four
      then have w: "wtf8_width t = 4"
        "wtf8_lower t = (if t = 0xf0 then 0x90 else 0x80)"
        "wtf8_upper t = (if t = 0xf4 then 0x8f else 0xbf)"
        using na by (auto simp: wtf8_width_def wtf8_lower_def wtf8_upper_def word_le_nat_alt)
      have n3: "\<not> t \<le> 0xdf" using four by (simp add: word_le_nat_alt)
      have four_eq: "(4::nat) = Suc (Suc (Suc (Suc 0)))" by simp
      show ?thesis
        using na nl nc1 four n3 r(2)
        by (cases p; cases "tl p"; cases "tl (tl p)")
           (auto simp: seq_at_def w Let_def numeral_2_eq_2 numeral_3_eq_3 four_eq)
    qed
  qed
qed

section \<open>The sanitizer loop\<close>

lemma sanitize_loop_acc:
  "sanitize_loop p q s = (q @ fst (sanitize_loop p [] 0), s + snd (sanitize_loop p [] 0))"
proof (induction "length p" arbitrary: p q s rule: less_induct)
  case less
  show ?case
  proof (cases p)
    case Nil
    then show ?thesis by simp
  next
    case (Cons t p')
    obtain bs n r where it: "sanitize_iter t p' = ((bs, n), r)"
      by (metis surj_pair)
    have "length r \<le> length p'"
      using sanitize_iter_length [of t p'] it by simp
    then have lt: "length r < length p" using Cons by simp
    have 1: "sanitize_loop r (q @ bs) (s + n)
        = ((q @ bs) @ fst (sanitize_loop r [] 0), (s + n) + snd (sanitize_loop r [] 0))"
      by (rule less [OF lt])
    have 2: "sanitize_loop r ([] @ bs) (0 + n)
        = (([] @ bs) @ fst (sanitize_loop r [] 0), (0 + n) + snd (sanitize_loop r [] 0))"
      by (rule less [OF lt])
    show ?thesis
      using 1 2 by (simp add: Cons it add.assoc)
  qed
qed

lemma sanitize_bytes_Nil: "sanitize_bytes [] = []" "sanitize_sub [] = 0"
  by (simp_all add: sanitize_bytes_def sanitize_sub_def)

lemma sanitize_bytes_step:
  assumes "sanitize_iter t p = ((bs, n), r)"
  shows "sanitize_bytes (t # p) = bs @ sanitize_bytes r" "sanitize_sub (t # p) = n + sanitize_sub r"
proof -
  have "sanitize_loop (t # p) [] 0 = sanitize_loop r bs n"
    using assms by simp
  also have "\<dots> = (bs @ fst (sanitize_loop r [] 0), n + snd (sanitize_loop r [] 0))"
    by (rule sanitize_loop_acc)
  finally show "sanitize_bytes (t # p) = bs @ sanitize_bytes r"
    "sanitize_sub (t # p) = n + sanitize_sub r"
    by (simp_all add: sanitize_bytes_def sanitize_sub_def)
qed

lemma sanitize_string_bytes:
  "duk_unicode_wtf8_sanitize_string str = (sanitize_bytes str, word_of_nat (length (sanitize_bytes str)))"
  by (simp add: duk_unicode_wtf8_sanitize_string_def duk__unicode_wtf8_sanitize_string_reference_def
        sanitize_bytes_def Let_def split: prod.splits)

lemma sanitize_out_clen_bytes:
  "sanitize_out_clen str = word_of_nat (length (sanitize_bytes str)) - sanitize_sub str"
  by (simp add: sanitize_out_clen_def sanitize_bytes_def sanitize_sub_def Let_def split: prod.splits)

lemma sanitize_cases [case_names ascii invalid scalar pair]:
  obtains
    (ascii) "t \<le> 0x7f" "sanitize_bytes (t # p) = t # sanitize_bytes p"
      "sanitize_sub (t # p) = sanitize_sub p"
  | (invalid) k where "\<not> t \<le> 0x7f" "\<not> seq_at t p"
      "sanitize_bytes (t # p) = [0xef, 0xbf, 0xbd] @ sanitize_bytes (drop k p)"
      "sanitize_sub (t # p) = 2 + sanitize_sub (drop k p)"
  | (scalar) "seq_at t p" "\<not> (high_surrogate_at (t # p) \<and> lo3_at (drop 2 p))"
      "sanitize_bytes (t # p) = (t # take (wtf8_width t - 1) p) @ sanitize_bytes (drop (wtf8_width t - 1) p)"
      "sanitize_sub (t # p) = word_of_nat (wtf8_width t - 1) + sanitize_sub (drop (wtf8_width t - 1) p)"
  | (pair) "seq_at t p" "high_surrogate_at (t # p)" "lo3_at (drop 2 p)"
      "sanitize_bytes (t # p) =
         utf8_enc4 (combine_surrogates (scalar_at (t # p)) (scalar_at (drop 2 p)))
         @ sanitize_bytes (drop 5 p)"
      "sanitize_sub (t # p) = 3 + sanitize_sub (drop 5 p)"
proof (cases "wtf8_event_at t p")
  case Ascii
  then have a: "t \<le> 0x7f"
    by (auto simp: wtf8_event_at_def Let_def split: if_splits)
  have "sanitize_iter t p = (([t], 0), p)"
    using Ascii by (simp add: sanitize_iter_event wtf8_event_step_def)
  from sanitize_bytes_step [OF this] a show ?thesis
    by (intro ascii) simp_all
next
  case (Invalid j)
  then have a: "\<not> t \<le> 0x7f" "\<not> seq_at t p"
    by (auto simp: wtf8_event_at_def seq_at_def Let_def split: if_splits)
  have "sanitize_iter t p = (([0xef, 0xbf, 0xbd], 2), drop (j - 1) p)"
    using Invalid by (simp add: sanitize_iter_event wtf8_event_step_def)
  from sanitize_bytes_step [OF this] a show ?thesis
    by (intro invalid [of "j - 1"]) simp_all
next
  case (Scalar n)
  then have a: "seq_at t p" "\<not> (high_surrogate_at (t # p) \<and> lo3_at (drop 2 p))"
    "n = 1 + (wtf8_width t - 1)"
    using good_conts_le [of "wtf8_lower t" "wtf8_upper t" "wtf8_width t - 1" p]
    by (auto simp: wtf8_event_at_def seq_at_def Let_def low_surrogate_lo3 split: if_splits)
  have "sanitize_iter t p = ((t # take (wtf8_width t - 1) p, word_of_nat (wtf8_width t - 1)),
      drop (wtf8_width t - 1) p)"
    using Scalar a(3) by (simp add: sanitize_iter_event wtf8_event_step_def)
  from sanitize_bytes_step [OF this] a show ?thesis
    by (intro scalar) simp_all
next
  case SurrogatePair
  then have a: "seq_at t p" "high_surrogate_at (t # p)" "lo3_at (drop 2 p)"
    using good_conts_le [of "wtf8_lower t" "wtf8_upper t" "wtf8_width t - 1" p]
    by (auto simp: wtf8_event_at_def seq_at_def Let_def low_surrogate_lo3 split: if_splits)
  have "sanitize_iter t p =
      ((utf8_enc4 (combine_surrogates (scalar_at (t # p)) (scalar_at (drop 2 p))), 3), drop 5 p)"
    using SurrogatePair by (simp add: sanitize_iter_event wtf8_event_step_def)
  from sanitize_bytes_step [OF this] a show ?thesis
    by (intro pair) simp_all
qed

lemma enc4_arith:
  assumes "65536 \<le> (cp::nat)" "cp < 1114112"
  shows "cp div 262144 \<le> 4"
    "cp div 262144 = 0 \<Longrightarrow> 16 \<le> cp div 4096 mod 64"
    "cp div 262144 = 4 \<Longrightarrow> cp div 4096 mod 64 \<le> 15"
proof -
  have "cp < 5 * 262144" using assms(2) by simp
  then have "cp div 262144 < 5" by (rule less_mult_imp_div_less)
  then show "cp div 262144 \<le> 4" by simp
  have lo: "65536 div 4096 \<le> cp div 4096" using assms(1) by (rule div_le_mono)
  show "16 \<le> cp div 4096 mod 64" if "cp div 262144 = 0"
  proof -
    have "cp < 64 * 4096" using that by (simp add: div_eq_0_iff)
    then have "cp div 4096 < 64" by (rule less_mult_imp_div_less)
    then show ?thesis using lo by simp
  qed
  show "cp div 4096 mod 64 \<le> 15" if "cp div 262144 = 4"
  proof -
    have "cp div 262144 * 262144 \<le> cp" by (rule div_times_less_eq_dividend)
    then have "1048576 \<le> cp" using that by simp
    then have "1048576 div 4096 \<le> cp div 4096" by (rule div_le_mono)
    then have a: "256 \<le> cp div 4096" by simp
    have "cp < 272 * 4096" using assms(2) by simp
    then have b: "cp div 4096 < 272" by (rule less_mult_imp_div_less)
    define r where "r = cp div 4096 - 256"
    have r: "cp div 4096 = 4 * 64 + r" "r < 16" using a b by (simp_all add: r_def)
    have "cp div 4096 mod 64 = r"
      unfolding r(1) using r(2) by (intro mod_window) simp
    then show ?thesis using r(2) by simp
  qed
qed

section \<open>Surrogates on the bytes; the 4-byte encoding\<close>

lemma unat_of_nat_small: "n < 256 \<Longrightarrow> unat (of_nat n :: u8) = n"
  by (simp add: unat_of_nat_8)

lemma unat_240: "n < 16 \<Longrightarrow> unat (240 + word_of_nat n :: u8) = 240 + n"
  using unat_of_nat_small [of "240 + n"] by simp

lemma unat_128: "n < 64 \<Longrightarrow> unat (128 + word_of_nat n :: u8) = 128 + n"
  using unat_of_nat_small [of "128 + n"] by simp

lemma seq4_wf:
  assumes "0xf0 \<le> b0" "b0 \<le> 0xf4" "(if b0 = 0xf0 then 0x90 else 0x80) \<le> b1"
    "b1 \<le> (if b0 = 0xf4 then 0x8f else 0xbf)" "0x80 \<le> b2" "b2 \<le> 0xbf" "0x80 \<le> b3" "b3 \<le> 0xbf"
  shows "wf_seq [b0, b1, b2, b3]"
proof -
  have w: "wtf8_width b0 = 4" "wtf8_lower b0 = (if b0 = 0xf0 then 0x90 else 0x80)"
    "wtf8_upper b0 = (if b0 = 0xf4 then 0x8f else 0xbf)"
    "\<not> wtf8_invalid_lead b0" "\<not> b0 \<le> 0x7f"
    using assms(1,2)
    by (auto simp: wtf8_width_def wtf8_lower_def wtf8_upper_def wtf8_invalid_lead_def word_le_nat_alt)
  have "wtf8_good_conts (wtf8_lower b0) (wtf8_upper b0) (Suc (Suc (Suc 0))) [b1, b2, b3]
      = Suc (Suc (Suc 0))"
    using assms(3-8) by (simp add: w)
  then have g: "wtf8_good_conts (wtf8_lower b0) (wtf8_upper b0) 3 [b1, b2, b3] = 3"
    by (simp only: numeral_3_eq_3)
  show ?thesis
    using g by (simp add: wf_seq_def seq_at_def w(1,4,5))
qed

lemma wf_enc4:
  assumes "65536 \<le> cp" "cp < 1114112"
  shows "wf_seq (utf8_enc4 cp)" "0xf0 \<le> hd (utf8_enc4 cp)"
proof -
  define w where "w = cp div 262144"
  define x where "x = cp div 4096 mod 64"
  define y where "y = cp div 64 mod 64"
  define z where "z = cp mod 64"
  note a = enc4_arith [OF assms, folded w_def x_def]
  have b: "x < 64" "y < 64" "z < 64" by (simp_all add: x_def y_def z_def)
  define b0 :: u8 where "b0 = of_nat (240 + w)"
  define b1 :: u8 where "b1 = of_nat (128 + x)"
  define b2 :: u8 where "b2 = of_nat (128 + y)"
  define b3 :: u8 where "b3 = of_nat (128 + z)"
  have e: "utf8_enc4 cp = [b0, b1, b2, b3]"
    by (simp add: utf8_enc4_def w_def x_def y_def z_def b0_def b1_def b2_def b3_def)
  have u: "unat b0 = 240 + w" "unat b1 = 128 + x" "unat b2 = 128 + y" "unat b3 = 128 + z"
    unfolding b0_def b1_def b2_def b3_def
    using a(1) b by (simp_all add: unat_240 unat_128)
  have e0: "b0 = 0xf0 \<longleftrightarrow> w = 0" "b0 = 0xf4 \<longleftrightarrow> w = 4"
    using u(1) by (simp_all add: word_unat_eq_iff)
  have "wf_seq [b0, b1, b2, b3]"
  proof (rule seq4_wf)
    show "0xf0 \<le> b0" using u(1) by (simp add: word_le_nat_alt)
    show "b0 \<le> 0xf4" using u(1) a(1) by (simp add: word_le_nat_alt)
    show "(if b0 = 0xf0 then 0x90 else 0x80) \<le> b1"
      using u(2) a(2) by (simp add: e0 word_le_nat_alt)
    show "b1 \<le> (if b0 = 0xf4 then 0x8f else 0xbf)"
      using u(2) a(3) b(1) by (simp add: e0 word_le_nat_alt)
    show "0x80 \<le> b2" using u(3) by (simp add: word_le_nat_alt)
    show "b2 \<le> 0xbf" using u(3) b(2) by (simp add: word_le_nat_alt)
    show "0x80 \<le> b3" using u(4) by (simp add: word_le_nat_alt)
    show "b3 \<le> 0xbf" using u(4) b(3) by (simp add: word_le_nat_alt)
  qed
  then show "wf_seq (utf8_enc4 cp)" by (simp add: e)
  show "0xf0 \<le> hd (utf8_enc4 cp)" using u(1) by (simp add: e word_le_nat_alt)
qed

lemma hi3_split:
  assumes "hi3_at p"
  shows "\<exists>c1 c2 r. p = 0xed # c1 # c2 # r \<and> 0xa0 \<le> c1 \<and> c1 \<le> 0xaf \<and> 0x80 \<le> c2 \<and> c2 \<le> 0xbf"
  using assms unfolding hi3_at_def
  by (cases p; cases "tl p"; cases "tl (tl p)") auto

lemma high_surrogate_hi3: "high_surrogate_at p = hi3_at p"
proof
  assume a: "high_surrogate_at p"
  then have s: "seq3_at p" and r: "0xd800 \<le> scalar_at p" "scalar_at p \<le> 0xdbff"
    by (simp_all add: high_surrogate_at_def)
  obtain t c1 c2 r' x y z where p: "p = t # c1 # c2 # r'" and b: "x < 16" "y < 64" "z < 64"
    and u: "unat t = 224 + x" "unat c1 = 128 + y" "unat c2 = 128 + z"
    and w: "t = of_nat (224 + x)"
    and v: "scalar_at p = x * 4096 + y * 64 + z"
    using seq3_split [OF s] by blast
  have r': "55296 \<le> x * 4096 + y * 64 + z" "x * 4096 + y * 64 + z \<le> 56319"
    using r v by simp_all
  have "x = 13" using r' b by arith
  then have t: "t = 0xed" using w by simp
  have "32 \<le> y" "y < 48" using r' \<open>x = 13\<close> b by arith+
  then have "0xa0 \<le> c1" "c1 \<le> 0xaf" "0x80 \<le> c2" "c2 \<le> 0xbf"
    using u b by (simp_all add: word_le_nat_alt)
  then show "hi3_at p" using t by (simp add: hi3_at_def p)
next
  assume a: "hi3_at p"
  obtain c1 c2 r where p: "p = 0xed # c1 # c2 # r"
    and c: "0xa0 \<le> c1" "c1 \<le> 0xaf" "0x80 \<le> c2" "c2 \<le> 0xbf"
    using hi3_split [OF a] by blast
  have "c1 \<le> 0xbf" using c(2) by (simp add: word_le_nat_alt)
  then show "high_surrogate_at p"
    unfolding p using c by (intro high_surrogate_bytes)
qed

lemma hi3_scalar:
  assumes "hi3_at p"
  shows "55296 \<le> scalar_at p" "scalar_at p \<le> 56319"
  using assms by (simp_all add: high_surrogate_hi3 [symmetric] high_surrogate_at_def)

lemma lo3_scalar_range:
  assumes "lo3_at p"
  shows "56320 \<le> scalar_at p" "scalar_at p \<le> 57343"
  using assms by (simp_all add: low_surrogate_lo3 [symmetric] low_surrogate_at_def)

lemma combine_range:
  assumes "hi3_at a" "lo3_at b"
  shows "65536 \<le> combine_surrogates (scalar_at a) (scalar_at b)"
    "combine_surrogates (scalar_at a) (scalar_at b) < 1114112"
proof -
  define h where "h = scalar_at a - 55296"
  define l where "l = scalar_at b - 56320"
  have h: "scalar_at a = 55296 + h" "h < 1024"
    using hi3_scalar [OF assms(1)] by (simp_all add: h_def)
  have l: "scalar_at b = 56320 + l" "l < 1024"
    using lo3_scalar_range [OF assms(2)] by (simp_all add: l_def)
  have c: "combine_surrogates (scalar_at a) (scalar_at b) = 65536 + h * 1024 + l"
    by (simp add: combine_surrogates_def h(1) l(1))
  show "65536 \<le> combine_surrogates (scalar_at a) (scalar_at b)" using c by simp
  have "h * 1024 \<le> 1023 * 1024" using h(2) by simp
  then show "combine_surrogates (scalar_at a) (scalar_at b) < 1114112"
    using c l(2) by simp
qed

section \<open>Whole sequences in the sanitizer\<close>

lemma wf_seq_Cons:
  assumes "wf_seq s"
  shows "\<exists>t s'. s = t # s' \<and> seq_at t s' \<and> length s' = wtf8_width t - 1 \<and> \<not> t \<le> 0x7f"
  using assms by (cases s) (auto simp: wf_seq_def seq_at_def)

lemma seq_at_append: "seq_at t s' \<Longrightarrow> seq_at t (s' @ ys)"
  by (simp add: seq_at_def good_conts_append)

lemma hi3_wf_append:
  assumes "wf_seq s" "hi3_at (s @ ys)"
  shows "hi3_at s \<and> length s = 3"
proof -
  obtain t s' where s: "s = t # s'" and l: "length s' = wtf8_width t - 1"
    using wf_seq_Cons [OF assms(1)] by blast
  have "t = 0xed" using assms(2) by (simp add: hi3_at_def s)
  then have "wtf8_width t = 3" by (simp add: wtf8_width_def)
  then have "length s' = 2" using l by simp
  then obtain c1 c2 where "s' = [c1, c2]"
    by (cases s'; cases "tl s'") auto
  then show ?thesis using assms(2) by (simp add: s hi3_at_def)
qed

lemma sanitize_wf_seq:
  assumes "wf_seq s" "\<not> (hi3_at s \<and> lo3_at ys)"
  shows "sanitize_bytes (s @ ys) = s @ sanitize_bytes ys"
    "sanitize_sub (s @ ys) = word_of_nat (length s - 1) + sanitize_sub ys"
proof -
  obtain t s' where s: "s = t # s'" and sa: "seq_at t s'" and l: "length s' = wtf8_width t - 1"
    and na: "\<not> t \<le> 0x7f"
    using wf_seq_Cons [OF assms(1)] by blast
  have sa': "seq_at t (s' @ ys)" using sa by (rule seq_at_append)
  have np: "\<not> (high_surrogate_at (t # s' @ ys) \<and> lo3_at (drop 2 (s' @ ys)))"
  proof
    assume a: "high_surrogate_at (t # s' @ ys) \<and> lo3_at (drop 2 (s' @ ys))"
    then have "hi3_at (s @ ys)" by (simp add: high_surrogate_hi3 s)
    then have h: "hi3_at s" "length s = 3" using hi3_wf_append [OF assms(1)] by blast+
    then have "drop 2 (s' @ ys) = ys" by (simp add: s)
    then show False using a h assms(2) by simp
  qed
  have "sanitize_bytes (t # s' @ ys) = s @ sanitize_bytes ys
      \<and> sanitize_sub (t # s' @ ys) = word_of_nat (length s - 1) + sanitize_sub ys"
  proof (cases t "s' @ ys" rule: sanitize_cases)
    case ascii
    then show ?thesis using na by simp
  next
    case (invalid k)
    then show ?thesis using sa' by simp
  next
    case scalar
    then show ?thesis using l by (simp add: s)
  next
    case pair
    then show ?thesis using np by simp
  qed
  then show "sanitize_bytes (s @ ys) = s @ sanitize_bytes ys"
    "sanitize_sub (s @ ys) = word_of_nat (length s - 1) + sanitize_sub ys"
    by (simp_all add: s)
qed

lemma valid_wf_seq:
  assumes "wf_seq s"
  shows "duk_unicode_is_valid_wtf8 (s @ ys) = duk_unicode_is_valid_wtf8 ys"
proof -
  obtain t s' where s: "s = t # s'" and sa: "seq_at t s'" and l: "length s' = wtf8_width t - 1"
    and na: "\<not> t \<le> 0x7f"
    using wf_seq_Cons [OF assms(1)] by blast
  have "seq_at t (s' @ ys)" using sa by (rule seq_at_append)
  then show ?thesis
    using na l by (simp only: s append_Cons valid_unfold) simp
qed

lemma sanitize_valid: "duk_unicode_is_valid_wtf8 (sanitize_bytes b)"
proof (induction "length b" arbitrary: b rule: less_induct)
  case less
  show ?case
  proof (cases b)
    case Nil
    then show ?thesis by (simp add: sanitize_bytes_Nil)
  next
    case (Cons t p)
    show ?thesis
    proof (cases t p rule: sanitize_cases)
      case ascii
      then show ?thesis using less [of p] Cons by simp
    next
      case (invalid k)
      have "duk_unicode_is_valid_wtf8 (sanitize_bytes (drop k p))"
        using less [of "drop k p"] Cons by simp
      then show ?thesis
        using invalid(3) valid_wf_seq [OF wf_seq_replacement] Cons by simp
    next
      case scalar
      have "duk_unicode_is_valid_wtf8 (sanitize_bytes (drop (wtf8_width t - 1) p))"
        using less [of "drop (wtf8_width t - 1) p"] Cons by simp
      then show ?thesis
        using scalar(3) valid_wf_seq [OF wf_seq_scalar [OF scalar(1)]] Cons by simp
    next
      case pair
      have h: "hi3_at (t # p)" using pair(2) by (simp add: high_surrogate_hi3)
      note r = combine_range [OF h pair(3)]
      have "duk_unicode_is_valid_wtf8 (sanitize_bytes (drop 5 p))"
        using less [of "drop 5 p"] Cons by simp
      then show ?thesis
        using pair(4) valid_wf_seq [OF wf_enc4(1) [OF r]] Cons by simp
    qed
  qed
qed

section \<open>Idempotence of the loop\<close>

lemma sanitize_ascii:
  assumes "t \<le> 0x7f"
  shows "sanitize_bytes (t # ys) = t # sanitize_bytes ys" "sanitize_sub (t # ys) = sanitize_sub ys"
  using sanitize_bytes_step [OF iter_ascii [OF assms, of ys]] by simp_all

lemma not_hi3_replacement: "\<not> hi3_at [0xef, 0xbf, 0xbd]"
  by (simp add: hi3_at_def)

lemma not_hi3_enc4:
  assumes "0xf0 \<le> hd s" "s \<noteq> []"
  shows "\<not> hi3_at s" "\<not> lo3_at (s @ ys)"
  using assms by (cases s; auto simp: hi3_at_def lo3_at_def word_le_nat_alt)+

lemma utf8_enc4_nonempty: "utf8_enc4 cp \<noteq> []"
  by (simp add: utf8_enc4_def)

lemma lo3_sanitize:
  assumes "lo3_at (sanitize_bytes r)"
  shows "lo3_at r"
proof (cases r)
  case Nil
  then show ?thesis using assms by (simp add: sanitize_bytes_Nil lo3_at_def)
next
  case (Cons t p)
  show ?thesis
  proof (cases t p rule: sanitize_cases)
    case ascii
    then have "t = 0xed" using assms Cons by (simp add: lo3_at_def)
    then show ?thesis using ascii(1) by simp
  next
    case (invalid k)
    then show ?thesis using assms Cons by (simp add: lo3_at_def)
  next
    case scalar
    have t: "t = 0xed" using assms Cons scalar(3) by (simp add: lo3_at_def)
    then have w: "wtf8_width t = 3" by (simp add: wtf8_width_def)
    have "2 \<le> length p" using seq_at_length [OF scalar(1)] w by simp
    then obtain c1 c2 p' where p: "p = c1 # c2 # p'"
      by (cases p; cases "tl p") auto
    show ?thesis
      using assms Cons scalar(3) w by (simp add: p lo3_at_def)
  next
    case pair
    have h: "hi3_at (t # p)" using pair(2) by (simp add: high_surrogate_hi3)
    note r = combine_range [OF h pair(3)]
    show ?thesis
      using not_hi3_enc4(2) [OF wf_enc4(2) [OF r] utf8_enc4_nonempty] assms Cons pair(4) by simp
  qed
qed

lemma hi3_take:
  assumes "hi3_at (t # take (wtf8_width t - 1) p)"
  shows "hi3_at (t # p) \<and> wtf8_width t - 1 = 2"
proof -
  have t: "t = 0xed" using assms by (simp add: hi3_at_def)
  then have w: "wtf8_width t = 3" by (simp add: wtf8_width_def)
  have "2 \<le> length p" using assms w by (simp add: hi3_at_def)
  then obtain c1 c2 p' where p: "p = c1 # c2 # p'"
    by (cases p; cases "tl p") auto
  show ?thesis using assms w by (simp add: p hi3_at_def)
qed

lemma sanitize_bytes_idem: "sanitize_bytes (sanitize_bytes b) = sanitize_bytes b"
proof (induction "length b" arbitrary: b rule: less_induct)
  case less
  show ?case
  proof (cases b)
    case Nil
    then show ?thesis by (simp add: sanitize_bytes_Nil)
  next
    case (Cons t p)
    show ?thesis
    proof (cases t p rule: sanitize_cases)
      case ascii
      then show ?thesis
        using less [of p] Cons by (simp add: sanitize_ascii)
    next
      case (invalid k)
      have ih: "sanitize_bytes (sanitize_bytes (drop k p)) = sanitize_bytes (drop k p)"
        using less [of "drop k p"] Cons by simp
      show ?thesis
        using sanitize_wf_seq(1) [OF wf_seq_replacement, of "sanitize_bytes (drop k p)"]
          not_hi3_replacement ih invalid(3) Cons by simp
    next
      case scalar
      define r where "r = drop (wtf8_width t - 1) p"
      define s where "s = t # take (wtf8_width t - 1) p"
      have ih: "sanitize_bytes (sanitize_bytes r) = sanitize_bytes r"
        using less [of r] Cons by (simp add: r_def)
      have np: "\<not> (hi3_at s \<and> lo3_at (sanitize_bytes r))"
      proof
        assume a: "hi3_at s \<and> lo3_at (sanitize_bytes r)"
        then have "hi3_at (t # p)" "wtf8_width t - 1 = 2"
          using hi3_take [of t p] by (simp_all add: s_def)
        moreover have "lo3_at r" using a lo3_sanitize by blast
        ultimately show False
          using scalar(2) by (simp add: r_def high_surrogate_hi3)
      qed
      have "sanitize_bytes (s @ sanitize_bytes r) = s @ sanitize_bytes (sanitize_bytes r)"
        using sanitize_wf_seq(1) [OF wf_seq_scalar [OF scalar(1)] , of "sanitize_bytes r"] np
        by (simp add: s_def)
      then show ?thesis
        using ih scalar(3) Cons by (simp add: s_def r_def)
    next
      case pair
      have h: "hi3_at (t # p)" using pair(2) by (simp add: high_surrogate_hi3)
      note r = combine_range [OF h pair(3)]
      define e where "e = utf8_enc4 (combine_surrogates (scalar_at (t # p)) (scalar_at (drop 2 p)))"
      have wf: "wf_seq e" "\<not> hi3_at e"
        using wf_enc4 [OF r] not_hi3_enc4(1) [of e] utf8_enc4_nonempty by (simp_all add: e_def)
      have ih: "sanitize_bytes (sanitize_bytes (drop 5 p)) = sanitize_bytes (drop 5 p)"
        using less [of "drop 5 p"] Cons by simp
      have "sanitize_bytes (e @ sanitize_bytes (drop 5 p)) = e @ sanitize_bytes (sanitize_bytes (drop 5 p))"
        using sanitize_wf_seq(1) [OF wf(1)] wf(2) by simp
      then show ?thesis
        using ih pair(4) Cons by (simp add: e_def)
    qed
  qed
qed

section \<open>Valid input, invalid sequences and the extra bytes\<close>

lemma lo3_valid_drop:
  assumes "lo3_at q" "duk_unicode_is_valid_wtf8 q"
  shows "duk_unicode_is_valid_wtf8 (drop 3 q)"
proof -
  obtain l1 l2 r u v where q: "q = 0xed # l1 # l2 # r"
    using lo3_split [OF assms(1)] by blast
  have "wtf8_width (0xed::u8) = 3" "\<not> (0xed::u8) \<le> 0x7f" by (simp_all add: wtf8_width_def)
  then show ?thesis
    using assms(2) by (simp add: q valid_unfold [of "0xed"] split: if_splits)
qed

lemma sanitize_coalesce:
  "duk_unicode_is_valid_wtf8 b \<Longrightarrow> sanitize_bytes b = coalesce_pairs b"
proof (induction "length b" arbitrary: b rule: less_induct)
  case less
  show ?case
  proof (cases b)
    case Nil
    then show ?thesis by (simp add: sanitize_bytes_Nil)
  next
    case (Cons t p)
    have v: "if t \<le> 0x7f then duk_unicode_is_valid_wtf8 p
        else seq_at t p \<and> duk_unicode_is_valid_wtf8 (drop (wtf8_width t - 1) p)"
      using less.prems by (simp only: Cons valid_unfold [of t p])
    show ?thesis
    proof (cases t p rule: sanitize_cases)
      case ascii
      then have "\<not> high_surrogate_at (t # p)" "wtf8_width t = 1"
        by (auto simp: high_surrogate_hi3 hi3_at_def wtf8_width_def)
      moreover have "sanitize_bytes p = coalesce_pairs p"
        using less.hyps [of p] v ascii(1) Cons by simp
      ultimately show ?thesis using ascii(2) Cons by simp
    next
      case (invalid k)
      then show ?thesis using v by simp
    next
      case scalar
      have "duk_unicode_is_valid_wtf8 (drop (wtf8_width t - 1) p)"
        using v scalar(1) by (auto simp: seq_at_def)
      then have "sanitize_bytes (drop (wtf8_width t - 1) p) = coalesce_pairs (drop (wtf8_width t - 1) p)"
        using less.hyps [of "drop (wtf8_width t - 1) p"] Cons by simp
      then show ?thesis
        using scalar(2,3) Cons by (auto simp: low_surrogate_lo3)
    next
      case pair
      have h: "hi3_at (t # p)" using pair(2) by (simp add: high_surrogate_hi3)
      then have "wtf8_width t = 3" by (simp add: hi3_at_def wtf8_width_def)
      then have "duk_unicode_is_valid_wtf8 (drop 2 p)"
        using v pair(1) by (auto simp: seq_at_def)
      then have "duk_unicode_is_valid_wtf8 (drop 5 p)"
        using lo3_valid_drop [OF pair(3)] by simp
      then have "sanitize_bytes (drop 5 p) = coalesce_pairs (drop 5 p)"
        using less.hyps [of "drop 5 p"] Cons by simp
      then show ?thesis
        using pair(2,3,4) Cons by (simp add: low_surrogate_lo3)
    qed
  qed
qed

lemma good_conts_stop:
  assumes "wtf8_good_conts lower upper (length cs) cs = length cs" "length cs < n"
    "rest = [] \<or> \<not> (if cs = [] then lower \<le> hd rest \<and> hd rest \<le> upper
                        else 0x80 \<le> hd rest \<and> hd rest \<le> 0xbf)"
  shows "wtf8_good_conts lower upper n (cs @ rest) = length cs"
  using assms
proof (induction cs arbitrary: lower upper n)
  case Nil
  then obtain n' where "n = Suc n'" by (cases n) auto
  then show ?case using Nil by (cases rest) auto
next
  case (Cons c cs)
  obtain n' where n: "n = Suc n'" using Cons.prems(2) by (cases n) auto
  have c: "lower \<le> c \<and> c \<le> upper" "wtf8_good_conts 0x80 0xbf (length cs) cs = length cs"
    using Cons.prems(1) by (auto split: if_splits)
  have r: "rest = [] \<or> \<not> (if cs = [] then 0x80 \<le> hd rest \<and> hd rest \<le> 0xbf
                        else 0x80 \<le> hd rest \<and> hd rest \<le> 0xbf)"
    using Cons.prems(3) by auto
  have "wtf8_good_conts 0x80 0xbf n' (cs @ rest) = length cs"
    using Cons.IH [OF c(2) _ r] Cons.prems(2) n by simp
  then show ?case using c(1) n by simp
qed

lemma extra_bytes_wf:
  assumes "wf_seq s"
  shows "extra_bytes (s @ ys) = (length s - 1) + extra_bytes ys"
proof -
  obtain t s' where s: "s = t # s'" and l: "length s' = wtf8_width t - 1"
    using wf_seq_Cons [OF assms] by blast
  show ?thesis using l by (simp add: s)
qed

lemma extra_bytes_ascii: "t \<le> 0x7f \<Longrightarrow> extra_bytes (t # ys) = extra_bytes ys"
  by (simp add: wtf8_width_def)

lemma sanitize_sub_extra: "sanitize_sub b = word_of_nat (extra_bytes (sanitize_bytes b))"
proof (induction "length b" arbitrary: b rule: less_induct)
  case less
  show ?case
  proof (cases b)
    case Nil
    then show ?thesis by (simp add: sanitize_bytes_Nil)
  next
    case (Cons t p)
    show ?thesis
    proof (cases t p rule: sanitize_cases)
      case ascii
      then show ?thesis
        using less [of p] Cons by (simp add: extra_bytes_ascii del: extra_bytes.simps)
    next
      case (invalid k)
      have "sanitize_sub (drop k p) = word_of_nat (extra_bytes (sanitize_bytes (drop k p)))"
        using less [of "drop k p"] Cons by simp
      then show ?thesis
        using invalid(3,4) extra_bytes_wf [OF wf_seq_replacement] Cons
        by (simp del: extra_bytes.simps)
    next
      case scalar
      have l: "length (t # take (wtf8_width t - 1) p) - 1 = wtf8_width t - 1"
        using seq_at_length [OF scalar(1)] by simp
      have "sanitize_sub (drop (wtf8_width t - 1) p)
          = word_of_nat (extra_bytes (sanitize_bytes (drop (wtf8_width t - 1) p)))"
        using less [of "drop (wtf8_width t - 1) p"] Cons by simp
      then show ?thesis
        using scalar(3,4) extra_bytes_wf [OF wf_seq_scalar [OF scalar(1)]] l Cons
        by (simp only: of_nat_add)
    next
      case pair
      have h: "hi3_at (t # p)" using pair(2) by (simp add: high_surrogate_hi3)
      note r = combine_range [OF h pair(3)]
      define e where "e = utf8_enc4 (combine_surrogates (scalar_at (t # p)) (scalar_at (drop 2 p)))"
      have "length e = 4" by (simp add: e_def utf8_enc4_def)
      then have eb: "extra_bytes (e @ ys) = 3 + extra_bytes ys" for ys
        using extra_bytes_wf [OF wf_enc4(1) [OF r], of ys] by (simp only: e_def [symmetric])
      have "sanitize_sub (drop 5 p) = word_of_nat (extra_bytes (sanitize_bytes (drop 5 p)))"
        using less [of "drop 5 p"] Cons by simp
      then show ?thesis
        using pair(4,5) eb Cons by (simp add: e_def [symmetric] del: extra_bytes.simps)
    qed
  qed
qed

lemma extra_bytes_le: "duk_unicode_is_valid_wtf8 xs \<Longrightarrow> extra_bytes xs \<le> length xs"
proof (induction "length xs" arbitrary: xs rule: less_induct)
  case less
  show ?case
  proof (cases xs)
    case Nil
    then show ?thesis by simp
  next
    case (Cons t p)
    have v: "if t \<le> 0x7f then duk_unicode_is_valid_wtf8 p
        else seq_at t p \<and> duk_unicode_is_valid_wtf8 (drop (wtf8_width t - 1) p)"
      using less.prems by (simp only: Cons valid_unfold [of t p])
    show ?thesis
    proof (cases "t \<le> 0x7f")
      case True
      then show ?thesis using less.hyps [of p] v Cons by (simp add: wtf8_width_def)
    next
      case False
      then have s: "seq_at t p" "duk_unicode_is_valid_wtf8 (drop (wtf8_width t - 1) p)"
        using v by simp_all
      have "extra_bytes (drop (wtf8_width t - 1) p) \<le> length (drop (wtf8_width t - 1) p)"
        using less.hyps [of "drop (wtf8_width t - 1) p"] s(2) Cons by simp
      then show ?thesis using seq_at_length [OF s(1)] Cons by simp
    qed
  qed
qed

lemmas wtf8_eval = high_surrogate_at_def low_surrogate_at_def seq3_at_def scalar_at_def
  duk_unicode_wtf8_decode_known_def wtf8_lower_def wtf8_upper_def wtf8_width_def utf8_enc4_def
  combine_surrogates_def wtf8_invalid_lead_def

lemmas sanitize_eval = duk_unicode_wtf8_sanitize_string_def
  duk__unicode_wtf8_sanitize_string_reference_def sanitize_out_clen_def
  sanitize_iter_def sanitize_lead_def sanitize_pair_def sanitize_emit_def replacement_def

section \<open>Character length of valid WTF-8\<close>

lemma width_cases:
  "wtf8_width t = 1 \<and> t \<le> 0x7f
   \<or> wtf8_width t = 2 \<and> \<not> t \<le> 0x7f \<and> t \<le> 0xdf
   \<or> wtf8_width t = 3 \<and> \<not> t \<le> 0x7f \<and> \<not> t \<le> 0xdf \<and> t \<le> 0xef
   \<or> wtf8_width t = 4 \<and> \<not> t \<le> 0x7f \<and> \<not> t \<le> 0xdf \<and> \<not> t \<le> 0xef"
  by (auto simp: wtf8_width_def word_le_nat_alt)

lemma charlength_loop_step:
  assumes "wtf8_width t - 1 \<le> length p"
  shows "charlength_loop (t # p) adj
    = charlength_loop (drop (wtf8_width t - 1) p) (adj + (wtf8_width t - wtf8_chars t))"
  using assms width_cases [of t] by (auto simp: wtf8_chars_def)

lemma char_count_step:
  assumes "t \<le> 0x7f \<or> seq_at t p"
  shows "char_count (t # p) = wtf8_chars t + char_count (drop (wtf8_width t - 1) p)"
proof (cases "t \<le> 0x7f")
  case True
  then show ?thesis by (simp add: wtf8_chars_def wtf8_width_def)
next
  case False
  then have s: "seq_at t p" using assms by simp
  then have "\<not> wtf8_invalid_lead t" by (simp add: seq_at_def)
  note r = lead_ranges [OF False this]
  show ?thesis
    using width_cases [of t] False r
    by (auto simp: wtf8_chars_def word_le_nat_alt)
qed

lemma chars_le_width: "wtf8_chars t \<le> wtf8_width t"
  using width_cases [of t] by (auto simp: wtf8_chars_def)

lemma valid_step:
  assumes "duk_unicode_is_valid_wtf8 (t # p)"
  shows "t \<le> 0x7f \<or> seq_at t p" "wtf8_width t - 1 \<le> length p"
    "duk_unicode_is_valid_wtf8 (drop (wtf8_width t - 1) p)"
proof -
  have v: "if t \<le> 0x7f then duk_unicode_is_valid_wtf8 p
      else seq_at t p \<and> duk_unicode_is_valid_wtf8 (drop (wtf8_width t - 1) p)"
    using assms by (simp only: valid_unfold [of t p])
  show "t \<le> 0x7f \<or> seq_at t p" using v by (auto split: if_splits)
  show "wtf8_width t - 1 \<le> length p"
    using v seq_at_length [of t p] by (auto simp: wtf8_width_def split: if_splits)
  show "duk_unicode_is_valid_wtf8 (drop (wtf8_width t - 1) p)"
    using v by (auto simp: wtf8_width_def split: if_splits)
qed

lemma char_count_le: "duk_unicode_is_valid_wtf8 xs \<Longrightarrow> char_count xs \<le> length xs"
proof (induction "length xs" arbitrary: xs rule: less_induct)
  case less
  show ?case
  proof (cases xs)
    case Nil
    then show ?thesis by simp
  next
    case (Cons t p)
    note v = valid_step [OF less.prems [unfolded Cons]]
    have "char_count (drop (wtf8_width t - 1) p) \<le> length (drop (wtf8_width t - 1) p)"
      using less.hyps [of "drop (wtf8_width t - 1) p"] v(3) Cons by simp
    then show ?thesis
      using char_count_step [OF v(1)] v(2) chars_le_width [of t] width_pos [of t] Cons
      by (simp del: char_count.simps)
  qed
qed

lemma charlength_loop_valid:
  "duk_unicode_is_valid_wtf8 xs
   \<Longrightarrow> charlength_loop xs adj = Some (adj + (length xs - char_count xs))"
proof (induction "length xs" arbitrary: xs adj rule: less_induct)
  case less
  show ?case
  proof (cases xs)
    case Nil
    then show ?thesis by simp
  next
    case (Cons t p)
    note v = valid_step [OF less.prems [unfolded Cons]]
    define r where "r = drop (wtf8_width t - 1) p"
    have ih: "charlength_loop r (adj + (wtf8_width t - wtf8_chars t))
        = Some (adj + (wtf8_width t - wtf8_chars t) + (length r - char_count r))"
      using less.hyps [of r] v(3) Cons by (simp add: r_def)
    have cl: "char_count r \<le> length r" unfolding r_def using v(3) by (rule char_count_le)
    have lr: "length r = length p - (wtf8_width t - 1)" by (simp add: r_def)
    have cc: "char_count (t # p) = wtf8_chars t + char_count r"
      using char_count_step [OF v(1)] by (simp only: r_def)
    have len: "length (t # p) = wtf8_width t + length r"
      using lr v(2) width_pos [of t] by simp
    have "charlength_loop (t # p) adj = charlength_loop r (adj + (wtf8_width t - wtf8_chars t))"
      using charlength_loop_step [OF v(2)] by (simp only: r_def)
    also have "\<dots> = Some (adj + (wtf8_width t - wtf8_chars t) + (length r - char_count r))"
      by (rule ih)
    also have "adj + (wtf8_width t - wtf8_chars t) + (length r - char_count r)
        = adj + (length (t # p) - char_count (t # p))"
      using cl chars_le_width [of t] by (simp only: cc len)
    finally show ?thesis by (simp only: Cons)
  qed
qed

lemma charlength_valid:
  assumes "duk_unicode_is_valid_wtf8 xs"
  shows "duk_unicode_wtf8_charlength xs = Some (char_count xs)"
  using charlength_loop_valid [OF assms, of 0] char_count_le [OF assms]
  by (simp add: duk_unicode_wtf8_charlength_def)

section \<open>Scalars of valid WTF-8\<close>

lemma seq_at_decode:
  assumes "seq_at t p"
  shows "\<exists>cp. duk_unicode_wtf8_decode_known (t # p) = Some cp
           \<and> (cp < 0x10000 \<longleftrightarrow> wtf8_width t \<noteq> 4)
           \<and> (wtf8_width t = 4 \<longrightarrow> 65536 \<le> unat cp \<and> unat cp < 1114112)"
proof -
  have na: "\<not> t \<le> 0x7f" and nl: "\<not> wtf8_invalid_lead t"
    and g: "wtf8_good_conts (wtf8_lower t) (wtf8_upper t) (wtf8_width t - 1) p = wtf8_width t - 1"
    using assms by (simp_all add: seq_at_def)
  note r = lead_ranges [OF na nl]
  consider (two) "t \<le> 0xdf" | (three) "\<not> t \<le> 0xdf" "t \<le> 0xef" | (four) "\<not> t \<le> 0xef"
    by blast
  then show ?thesis
  proof cases
    case two
    then have w: "wtf8_width t = 2" "wtf8_lower t = 0x80" "wtf8_upper t = 0xbf"
      using na by (auto simp: wtf8_width_def wtf8_lower_def wtf8_upper_def)
    obtain c rest where p: "p = c # rest" and c: "0x80 \<le> c" "c \<le> 0xbf"
      using good_conts_1 [of "0x80" "0xbf" p] g w by auto
    obtain x where x: "x < 32" "unat t = 192 + x"
      using lead2_split [OF r(1) two] by blast
    obtain y where y: "y < 64" "unat c = 128 + y"
      using cont_split [OF c] by blast
    obtain cp where d: "duk_unicode_wtf8_decode_known (t # c # rest) = Some cp"
      "unat cp = x * 64 + y"
      using decode_known_seq2 [OF x(2) x(1) y(2) y(1)] by blast
    have "cp < 0x10000" using d(2) x(1) y(1) by (simp add: word_less_nat_alt)
    then show ?thesis using d(1) w(1) p by auto
  next
    case three
    then have w: "wtf8_width t = 3" "wtf8_upper t = 0xbf"
      using na by (auto simp: wtf8_width_def wtf8_upper_def)
    obtain c1 c2 rest where p: "p = c1 # c2 # rest"
      and c: "wtf8_lower t \<le> c1" "c1 \<le> 0xbf" "0x80 \<le> c2" "c2 \<le> 0xbf"
      using good_conts_2 [of "wtf8_lower t" "wtf8_upper t" p] g w by auto
    have t3: "0xe0 \<le> t" using three(1) by (simp add: word_le_nat_alt)
    have "seq3_at (t # p)" using t3 three(2) c by (simp add: seq3_at_def p)
    then obtain x y z where b: "x < 16" "y < 64" "z < 64"
      and u: "unat t = 224 + x" "unat c1 = 128 + y" "unat c2 = 128 + z"
      using seq3_split [of "t # p"] by (auto simp: p)
    obtain cp where d: "duk_unicode_wtf8_decode_known (t # c1 # c2 # rest) = Some cp"
      "unat cp = x * 4096 + y * 64 + z"
      using decode_known_seq3 [OF u(1) b(1) u(2) b(2) u(3) b(3)] by blast
    have "cp < 0x10000" using d(2) b by (simp add: word_less_nat_alt)
    then show ?thesis using d(1) w(1) p by auto
  next
    case four
    then have w: "wtf8_width t = 4" "wtf8_lower t = (if t = 0xf0 then 0x90 else 0x80)"
      "wtf8_upper t = (if t = 0xf4 then 0x8f else 0xbf)"
      using na by (auto simp: wtf8_width_def wtf8_lower_def wtf8_upper_def word_le_nat_alt)
    obtain c1 c2 c3 rest where p: "p = c1 # c2 # c3 # rest"
      and c: "(if t = 0xf0 then 0x90 else 0x80) \<le> c1" "c1 \<le> (if t = 0xf4 then 0x8f else 0xbf)"
        "0x80 \<le> c2" "c2 \<le> 0xbf" "0x80 \<le> c3" "c3 \<le> 0xbf"
      using good_conts_3 [of "wtf8_lower t" "wtf8_upper t" p] g w by auto
    have t4: "0xf0 \<le> t" using four by (simp add: word_le_nat_alt)
    obtain a where a: "a < 5" "unat t = 240 + a" "t = of_nat (240 + a)"
      using lead4_split [OF t4 r(2)] by blast
    have c1lo: "0x80 \<le> c1" using c(1) by (auto split: if_splits simp: word_le_nat_alt)
    have c1hi: "c1 \<le> 0xbf" using c(2) by (auto split: if_splits simp: word_le_nat_alt)
    obtain x where x: "x < 64" "unat c1 = 128 + x"
      using cont_split [OF c1lo c1hi] by blast
    obtain y where y: "y < 64" "unat c2 = 128 + y"
      using cont_split [OF c(3,4)] by blast
    obtain z where z: "z < 64" "unat c3 = 128 + z"
      using cont_split [OF c(5,6)] by blast
    have ov: "16 \<le> a * 64 + x"
    proof (cases "a = 0")
      case True
      then have "t = 0xf0" using a(3) by simp
      then have "0x90 \<le> c1" using c(1) by simp
      then show ?thesis using x(2) by (simp add: word_le_nat_alt)
    next
      case False
      then show ?thesis by simp
    qed
    have up: "a * 64 + x \<le> 271"
    proof (cases "a = 4")
      case True
      then have "t = 0xf4" using a(3) by simp
      then have "c1 \<le> 0x8f" using c(2) by simp
      then show ?thesis using x(2) True by (simp add: word_le_nat_alt)
    next
      case False
      then have "a \<le> 3" using a(1) by simp
      then have "a * 64 \<le> 3 * 64" by (rule mult_le_mono1)
      then show ?thesis using x(1) by simp
    qed
    have a8: "a < 8" using a(1) by simp
    obtain cp where d: "duk_unicode_wtf8_decode_known (t # c1 # c2 # c3 # rest) = Some cp"
      "unat cp = a * 262144 + x * 4096 + y * 64 + z"
      using decode_known_seq4 [OF a(2) a8 x(2) x(1) y(2) y(1) z(2) z(1)] by blast
    have e: "unat cp = (a * 64 + x) * 4096 + y * 64 + z" using d(2) by simp
    have "16 * 4096 \<le> (a * 64 + x) * 4096" using ov by (rule mult_le_mono1)
    then have lo: "65536 \<le> unat cp" using e by simp
    have "(a * 64 + x) * 4096 \<le> 271 * 4096" using up by (rule mult_le_mono1)
    then have hi: "unat cp < 1114112" using e y(1) z(1) by simp
    have "\<not> cp < 0x10000" using lo by (simp add: word_less_nat_alt)
    then show ?thesis using d(1) w(1) p lo hi by auto
  qed
qed

lemma scalars_step:
  assumes "t \<le> 0x7f \<or> seq_at t p"
  shows "\<exists>cp. scalars (t # p) = cp # scalars (drop (wtf8_width t - 1) p)
          \<and> (if cp < 0x10000 then 1 else 2) = wtf8_chars t"
proof (cases "t \<le> 0x7f")
  case True
  have "unat (ucast t :: u32) < 65536"
    using unat_lt_256 [of t] by (simp only: unat_ucast_8_32)
  then have "(ucast t :: u32) < 0x10000" by (simp add: word_less_nat_alt)
  then show ?thesis
    using True by (simp add: decode_known_ascii wtf8_chars_def wtf8_width_def)
next
  case False
  then have "seq_at t p" using assms by simp
  then obtain cp where "duk_unicode_wtf8_decode_known (t # p) = Some cp"
    "cp < 0x10000 \<longleftrightarrow> wtf8_width t \<noteq> 4"
    using seq_at_decode by blast
  then show ?thesis by (auto simp: wtf8_chars_def)
qed

lemma char_count_scalars:
  "duk_unicode_is_valid_wtf8 xs
   \<Longrightarrow> char_count xs = sum_list (map (\<lambda>cp. if cp < 0x10000 then 1 else 2) (scalars xs))"
proof (induction "length xs" arbitrary: xs rule: less_induct)
  case less
  show ?case
  proof (cases xs)
    case Nil
    then show ?thesis by simp
  next
    case (Cons t p)
    note v = valid_step [OF less.prems [unfolded Cons]]
    define r where "r = drop (wtf8_width t - 1) p"
    have ih: "char_count r = sum_list (map (\<lambda>cp. if cp < 0x10000 then 1 else 2) (scalars r))"
      using less.hyps [of r] v(3) Cons by (simp add: r_def)
    obtain cp where s: "scalars (t # p) = cp # scalars r"
      "(if cp < 0x10000 then 1 else 2) = wtf8_chars t"
      using scalars_step [OF v(1)] unfolding r_def by blast
    have cc: "char_count (t # p) = wtf8_chars t + char_count r"
      using char_count_step [OF v(1)] by (simp only: r_def)
    show ?thesis
      by (simp only: Cons cc s(1) ih list.map sum_list.Cons s(2))
  qed
qed

section \<open>The char-to-byte scan on valid WTF-8\<close>

lemma scan_step:
  "scan_char2byte (t # p) pos =
     (if pos < wtf8_chars t then (0, 0)
      else (case scan_char2byte (drop (wtf8_width t - 1) p) (pos - wtf8_chars t) of
              (b, c) \<Rightarrow> (b + wtf8_width t, c + wtf8_chars t)))"
  using width_cases [of t] by (auto simp: wtf8_chars_def)

lemma chars_pos: "0 < wtf8_chars t" "wtf8_chars t \<le> 2"
  by (simp_all add: wtf8_chars_def)

lemma char_count_four:
  assumes "duk_unicode_is_valid_wtf8 (t # p)" "wtf8_width t = 4"
  shows "char_count (t # p) + 2 \<le> length (t # p)"
proof -
  note v = valid_step [OF assms(1)]
  have "char_count (drop (wtf8_width t - 1) p) \<le> length (drop (wtf8_width t - 1) p)"
    using v(3) by (rule char_count_le)
  then show ?thesis
    using char_count_step [OF v(1)] v(2) assms(2) by (simp add: wtf8_chars_def del: char_count.simps)
qed

lemma scan_props:
  "duk_unicode_is_valid_wtf8 xs \<Longrightarrow> pos \<le> char_count xs \<Longrightarrow> scan_char2byte xs pos = (b, c)
   \<Longrightarrow> b \<le> length xs \<and> c \<le> pos \<and> pos \<le> c + 1 \<and> c \<le> b
       \<and> duk_unicode_is_valid_wtf8 (drop b xs)
       \<and> char_count (drop b xs) + c = char_count xs
       \<and> (c \<noteq> pos \<longrightarrow> (\<exists>t p. drop b xs = t # p \<and> wtf8_width t = 4 \<and> seq_at t p))"
proof (induction "length xs" arbitrary: xs pos b c rule: less_induct)
  case less
  show ?case
  proof (cases xs)
    case Nil
    then show ?thesis using less.prems by simp
  next
    case (Cons t p)
    note v = valid_step [OF less.prems(1) [unfolded Cons]]
    define r where "r = drop (wtf8_width t - 1) p"
    have cc: "char_count (t # p) = wtf8_chars t + char_count r"
      using char_count_step [OF v(1)] by (simp only: r_def)
    have len: "length (t # p) = wtf8_width t + length r"
      using v(2) width_pos [of t] by (simp add: r_def)
    show ?thesis
    proof (cases "pos < wtf8_chars t")
      case True
      then have bc: "b = 0" "c = 0"
        using less.prems(3) by (simp_all only: Cons scan_step if_True prod.inject)
      have p1: "pos \<le> 1" using True chars_pos(2) [of t] by simp
      have "\<exists>t' p'. drop b xs = t' # p' \<and> wtf8_width t' = 4 \<and> seq_at t' p'" if "c \<noteq> pos"
      proof -
        have "wtf8_chars t = 2" using that True bc p1 chars_pos(2) [of t] by simp
        then have w: "wtf8_width t = 4" by (simp add: wtf8_chars_def split: if_splits)
        then have "\<not> t \<le> 0x7f" by (auto simp: wtf8_width_def)
        then show ?thesis using v(1) w bc Cons by simp
      qed
      then show ?thesis
        using bc p1 less.prems(1) Cons by simp
    next
      case False
      obtain b' c' where s: "scan_char2byte r (pos - wtf8_chars t) = (b', c')"
        by (metis surj_pair)
      have bc: "b = b' + wtf8_width t" "c = c' + wtf8_chars t"
        using less.prems(3) False s
        by (simp_all only: Cons scan_step r_def [symmetric] if_False prod.case prod.inject)
      have pr: "pos - wtf8_chars t \<le> char_count r"
        using less.prems(2) by (simp only: Cons cc)
      have lr: "length r < length xs" using len Cons width_pos [of t] by simp
      have vr: "duk_unicode_is_valid_wtf8 r" using v(3) by (simp add: r_def)
      note ih0 = less.hyps [OF lr vr pr s]
      have ih: "b' \<le> length r" "c' \<le> pos - wtf8_chars t" "pos - wtf8_chars t \<le> c' + 1"
        "c' \<le> b'" "duk_unicode_is_valid_wtf8 (drop b' r)"
        "char_count (drop b' r) + c' = char_count r"
        "c' \<noteq> pos - wtf8_chars t \<longrightarrow> (\<exists>t p. drop b' r = t # p \<and> wtf8_width t = 4 \<and> seq_at t p)"
        using ih0 by blast+
      have d: "drop b xs = drop b' r"
        using bc(1) v(2) width_pos [of t] by (simp add: Cons r_def drop_Cons' add.commute)
      have "b \<le> length xs" using ih(1) bc(1) len Cons by simp
      moreover have "c \<le> pos" "pos \<le> c + 1" using ih(2,3) bc(2) False by arith+
      moreover have "c \<le> b" using ih(4) bc chars_le_width [of t] by simp
      moreover have "char_count (drop b xs) + c = char_count xs"
        using ih(6) bc(2) d cc by (simp add: Cons del: char_count.simps)
      moreover have "c \<noteq> pos \<longrightarrow> (\<exists>t p. drop b xs = t # p \<and> wtf8_width t = 4 \<and> seq_at t p)"
      proof -
        have "c \<noteq> pos \<longrightarrow> c' \<noteq> pos - wtf8_chars t" using bc(2) False by arith
        then show ?thesis using ih(7) by (simp only: d) blast
      qed
      moreover have "duk_unicode_is_valid_wtf8 (drop b xs)" using ih(5) by (simp only: d)
      ultimately show ?thesis by blast
    qed
  qed
qed

lemma scan_mono:
  "duk_unicode_is_valid_wtf8 xs \<Longrightarrow> pos1 < pos2 \<Longrightarrow> pos2 \<le> char_count xs
   \<Longrightarrow> scan_char2byte xs pos1 = (b1, c1) \<Longrightarrow> scan_char2byte xs pos2 = (b2, c2)
   \<Longrightarrow> (if c1 \<noteq> pos1 then b1 + 4 else b1) \<le> b2"
proof (induction "length xs" arbitrary: xs pos1 pos2 b1 c1 b2 c2 rule: less_induct)
  case less
  show ?case
  proof (cases xs)
    case Nil
    then show ?thesis using less.prems by simp
  next
    case (Cons t p)
    note v = valid_step [OF less.prems(1) [unfolded Cons]]
    define r where "r = drop (wtf8_width t - 1) p"
    have cc: "char_count (t # p) = wtf8_chars t + char_count r"
      using char_count_step [OF v(1)] by (simp only: r_def)
    have len: "length (t # p) = wtf8_width t + length r"
      using v(2) width_pos [of t] by (simp add: r_def)
    show ?thesis
    proof (cases "pos1 < wtf8_chars t")
      case True
      then have bc: "b1 = 0" "c1 = 0"
        using less.prems(4) by (simp_all only: Cons scan_step if_True prod.inject)
      show ?thesis
      proof (cases "c1 \<noteq> pos1")
        case False
        then show ?thesis using bc by simp
      next
        case ne: True
        have "wtf8_chars t = 2" using ne True bc chars_pos(2) [of t] by simp
        then have w: "wtf8_width t = 4" "\<not> pos2 < wtf8_chars t"
          using less.prems(2) ne bc by (simp_all add: wtf8_chars_def split: if_splits)
        obtain b' c' where s: "scan_char2byte r (pos2 - wtf8_chars t) = (b', c')"
          by (metis surj_pair)
        have "b2 = b' + wtf8_width t"
          using less.prems(5) w(2) s
          by (simp_all only: Cons scan_step r_def [symmetric] if_False prod.case prod.inject)
        then show ?thesis using bc w(1) by simp
      qed
    next
      case False
      then have f2: "\<not> pos2 < wtf8_chars t" using less.prems(2) by simp
      obtain b1' c1' where s1: "scan_char2byte r (pos1 - wtf8_chars t) = (b1', c1')"
        by (metis surj_pair)
      obtain b2' c2' where s2: "scan_char2byte r (pos2 - wtf8_chars t) = (b2', c2')"
        by (metis surj_pair)
      have bc1: "b1 = b1' + wtf8_width t" "c1 = c1' + wtf8_chars t"
        using less.prems(4) False s1
        by (simp_all only: Cons scan_step r_def [symmetric] if_False prod.case prod.inject)
      have bc2: "b2 = b2' + wtf8_width t"
        using less.prems(5) f2 s2
        by (simp_all only: Cons scan_step r_def [symmetric] if_False prod.case prod.inject)
      have lt: "pos1 - wtf8_chars t < pos2 - wtf8_chars t" using less.prems(2) False by simp
      have pr: "pos2 - wtf8_chars t \<le> char_count r"
        using less.prems(3) by (simp only: Cons cc)
      have lr: "length r < length xs" using len Cons width_pos [of t] by simp
      have vr: "duk_unicode_is_valid_wtf8 r" using v(3) by (simp add: r_def)
      have "(if c1' \<noteq> pos1 - wtf8_chars t then b1' + 4 else b1') \<le> b2'"
        by (rule less.hyps [OF lr vr lt pr s1 s2])
      then show ?thesis using bc1 bc2 False by (auto split: if_splits)
    qed
  qed
qed

section \<open>Appending to the sanitizer's input\<close>

lemma good_conts_le_length: "wtf8_good_conts lower upper n p \<le> length p"
  by (induction lower upper n p rule: wtf8_good_conts.induct) auto

lemma lower_upper_cont: "0x80 \<le> wtf8_lower t" "wtf8_upper t \<le> 0xbf"
  by (simp_all add: wtf8_lower_def wtf8_upper_def)

lemma good_conts_append_nocont:
  assumes "ys = [] \<or> \<not> (0x80 \<le> hd ys \<and> hd ys \<le> 0xbf)" "0x80 \<le> lower" "upper \<le> 0xbf"
  shows "wtf8_good_conts lower upper n (p @ ys) = wtf8_good_conts lower upper n p"
  using assms(2,3)
proof (induction p arbitrary: lower upper n)
  case Nil
  show ?case
  proof (cases n)
    case 0
    then show ?thesis by simp
  next
    case (Suc n')
    show ?thesis
    proof (cases ys)
      case Nil
      then show ?thesis by (simp add: Suc)
    next
      case (Cons c ys')
      then have "\<not> (0x80 \<le> c \<and> c \<le> 0xbf)" using assms(1) by simp
      then have "\<not> (lower \<le> c \<and> c \<le> upper)"
        using Nil.prems by (meson order_trans)
      then show ?thesis by (simp add: Suc Cons)
    qed
  qed
next
  case (Cons c p)
  show ?case
  proof (cases n)
    case 0
    then show ?thesis by simp
  next
    case (Suc n')
    have "wtf8_good_conts 0x80 0xbf n' (p @ ys) = wtf8_good_conts 0x80 0xbf n' p"
      by (rule Cons.IH) simp_all
    then show ?thesis by (simp add: Suc)
  qed
qed

lemma lo3_append_nocont:
  assumes "ys = [] \<or> \<not> (0x80 \<le> hd ys \<and> hd ys \<le> 0xbf)" "\<not> lo3_at ys"
  shows "lo3_at (q @ ys) = lo3_at q"
proof -
  have c: "\<not> (0xb0 \<le> hd ys \<and> hd ys \<le> 0xbf)" if "ys \<noteq> []"
  proof
    assume "0xb0 \<le> hd ys \<and> hd ys \<le> 0xbf"
    then have "0x80 \<le> hd ys \<and> hd ys \<le> 0xbf" by (simp add: word_le_nat_alt)
    then show False using assms(1) that by simp
  qed
  consider (0) "q = []" | (1) a where "q = [a]" | (2) a b where "q = [a, b]"
    | (3) a b c r where "q = a # b # c # r"
    by (cases q; cases "tl q"; cases "tl (tl q)") auto
  then show ?thesis
  proof cases
    case 0
    then show ?thesis using assms(2) by (simp add: lo3_at_def)
  next
    case 1
    then show ?thesis using c assms(1) by (cases ys) (auto simp: lo3_at_def)
  next
    case 2
    then show ?thesis using assms(1) by (cases ys) (auto simp: lo3_at_def)
  next
    case 3
    then show ?thesis by (simp add: lo3_at_def)
  qed
qed

lemma hi3_append_long: "2 \<le> length p \<Longrightarrow> hi3_at (t # p @ ys) = hi3_at (t # p)"
  by (cases p; cases "tl p") (auto simp: hi3_at_def)

lemma event_at_append:
  assumes "ys = [] \<or> \<not> (0x80 \<le> hd ys \<and> hd ys \<le> 0xbf)" "\<not> lo3_at ys"
  shows "wtf8_event_at t (p @ ys) = wtf8_event_at t p"
proof -
  define n where "n = wtf8_width t - 1"
  define k where "k = wtf8_good_conts (wtf8_lower t) (wtf8_upper t) n p"
  have g: "wtf8_good_conts (wtf8_lower t) (wtf8_upper t) n (p @ ys) = k"
    unfolding k_def by (rule good_conts_append_nocont [OF assms(1) lower_upper_cont])
  have kl: "k \<le> length p" unfolding k_def by (rule good_conts_le_length)
  have pair: "(high_surrogate_at (t # p @ ys) \<and> low_surrogate_at (drop 2 (p @ ys)))
      = (high_surrogate_at (t # p) \<and> low_surrogate_at (drop 2 p))" if "\<not> k < n"
  proof (cases "wtf8_width t = 3")
    case True
    then have "2 \<le> length p" using that kl by (simp add: n_def)
    then show ?thesis
      using lo3_append_nocont [OF assms, of "drop 2 p"]
      by (simp add: high_surrogate_hi3 low_surrogate_lo3 hi3_append_long)
  next
    case False
    then have "t \<noteq> 0xed" by (auto simp: wtf8_width_def)
    then show ?thesis by (simp add: high_surrogate_hi3 hi3_at_def)
  qed
  have e1: "wtf8_event_at t (p @ ys) =
      (if t \<le> 0x7f then Ascii
       else if wtf8_invalid_lead t then Invalid 1
       else if k < n then Invalid (1 + k)
       else if high_surrogate_at (t # p @ ys) \<and> low_surrogate_at (drop 2 (p @ ys))
       then SurrogatePair else Scalar (1 + n))"
    by (simp only: wtf8_event_at_def Let_def n_def [symmetric] g)
  have e2: "wtf8_event_at t p =
      (if t \<le> 0x7f then Ascii
       else if wtf8_invalid_lead t then Invalid 1
       else if k < n then Invalid (1 + k)
       else if high_surrogate_at (t # p) \<and> low_surrogate_at (drop 2 p)
       then SurrogatePair else Scalar (1 + n))"
    by (simp only: wtf8_event_at_def Let_def n_def [symmetric] k_def [symmetric])
  show ?thesis
  proof (cases "k < n")
    case True
    then show ?thesis by (simp only: e1 e2 if_True)
  next
    case False
    then show ?thesis by (simp only: e1 e2 pair [OF False] if_False)
  qed
qed

lemma event_step_append:
  assumes "ys = [] \<or> \<not> (0x80 \<le> hd ys \<and> hd ys \<le> 0xbf)" "\<not> lo3_at ys"
  shows "wtf8_event_step t (p @ ys)
    = (fst (wtf8_event_step t p), snd (wtf8_event_step t p) @ ys)"
proof (cases "wtf8_event_at t p")
  case Ascii
  then show ?thesis
    by (simp add: wtf8_event_step_def event_at_append [OF assms])
next
  case (Invalid j)
  then have "j - 1 \<le> length p"
    using good_conts_le_length [of "wtf8_lower t" "wtf8_upper t" "wtf8_width t - 1" p]
    by (auto simp: wtf8_event_at_def Let_def split: if_splits)
  then show ?thesis
    using Invalid by (simp add: wtf8_event_step_def event_at_append [OF assms])
next
  case (Scalar m)
  then have "m - 1 \<le> length p"
    using good_conts_le_length [of "wtf8_lower t" "wtf8_upper t" "wtf8_width t - 1" p]
    by (auto simp: wtf8_event_at_def Let_def split: if_splits)
  then show ?thesis
    using Scalar by (simp add: wtf8_event_step_def event_at_append [OF assms])
next
  case SurrogatePair
  then have h: "hi3_at (t # p)" "lo3_at (drop 2 p)"
    by (auto simp: wtf8_event_at_def Let_def high_surrogate_hi3 low_surrogate_lo3 split: if_splits)
  then have l5: "5 \<le> length p" by (auto simp: lo3_at_def)
  obtain a b r where p: "p = a # b # r" using l5 by (cases p; cases "tl p") auto
  have s1: "scalar_at (t # p @ ys) = scalar_at (t # p)"
    using h(1) by (simp add: p scalar_at_def duk_unicode_wtf8_decode_known_def hi3_at_def)
  obtain l1 l2 r' where r: "r = 0xed # l1 # l2 # r'"
    using lo3_split [OF h(2)] by (auto simp: p)
  have s2: "scalar_at (drop 2 (p @ ys)) = scalar_at (drop 2 p)"
    by (simp add: p r scalar_at_def duk_unicode_wtf8_decode_known_def)
  show ?thesis
    using SurrogatePair l5 s1 s2
    by (simp add: wtf8_event_step_def event_at_append [OF assms])
qed

lemma sanitize_bytes_append_nocont:
  assumes "ys = [] \<or> \<not> (0x80 \<le> hd ys \<and> hd ys \<le> 0xbf)" "\<not> lo3_at ys"
  shows "sanitize_bytes (xs @ ys) = sanitize_bytes xs @ sanitize_bytes ys"
proof (induction "length xs" arbitrary: xs rule: less_induct)
  case less
  show ?case
  proof (cases xs)
    case Nil
    then show ?thesis by (simp add: sanitize_bytes_Nil)
  next
    case (Cons t p)
    obtain bs n r where it: "sanitize_iter t p = ((bs, n), r)"
      by (metis surj_pair)
    have "length r \<le> length p"
      using sanitize_iter_length [of t p] it by simp
    then have ih: "sanitize_bytes (r @ ys) = sanitize_bytes r @ sanitize_bytes ys"
      using less [of r] Cons by simp
    have "sanitize_iter t (p @ ys) = ((bs, n), r @ ys)"
      using it event_step_append [OF assms, of t p] by (simp add: sanitize_iter_event)
    then show ?thesis
      using sanitize_bytes_step(1) [OF it] sanitize_bytes_step(1) [of t "p @ ys" bs n "r @ ys"] ih
      by (simp add: Cons)
  qed
qed

section \<open>Manufactured surrogates\<close>

lemma surrogate_bytes_enc3: "surrogate_bytes s = surrogate_enc3 (unat s)"
proof -
  have b1: "(ucast (0x80 + (drop_bit 6 s AND 0x3f) :: u32) :: u8) = of_nat (128 + unat s div 64 mod 64)"
    by (simp only: word_unat_eq_iff unat_ucast_32_8 unat_add_32 unat_drop_32 unat_and_3f_32 unat_of_nat_8) simp
  have b2: "(ucast (0x80 + (s AND 0x3f) :: u32) :: u8) = of_nat (128 + unat s mod 64)"
    by (simp only: word_unat_eq_iff unat_ucast_32_8 unat_add_32 unat_and_3f_32 unat_of_nat_8) simp
  show ?thesis
    by (simp only: surrogate_bytes_def surrogate_enc3_def b1 b2)
qed

lemma unat_sub_10000:
  assumes "65536 \<le> unat (cp::u32)"
  shows "unat (cp - 0x10000) = unat cp - 65536"
proof -
  have "(0x10000::u32) \<le> cp" using assms by (simp add: word_le_nat_alt)
  then have "unat (cp - 0x10000) = unat cp - unat (0x10000::u32)" by (rule unat_sub)
  then show ?thesis by simp
qed

lemma unat_low_surrogate:
  assumes "65536 \<le> unat (cp::u32)"
  shows "unat (0xdc00 + ((cp - 0x10000) AND 0x3ff)) = 56320 + (unat cp - 65536) mod 1024"
proof -
  have "(unat cp - 65536) mod 1024 < 1024" by simp
  then show ?thesis
    by (simp only: unat_add_32 unat_and_3ff_32 unat_sub_10000 [OF assms]) simp
qed

lemma unat_high_surrogate:
  assumes "65536 \<le> unat (cp::u32)" "unat cp < 1114112"
  shows "unat (0xd800 + drop_bit 10 (cp - 0x10000)) = 55296 + (unat cp - 65536) div 1024"
    "(unat cp - 65536) div 1024 < 1024"
proof -
  have "unat cp - 65536 < 1024 * 1024" using assms by simp
  then show d: "(unat cp - 65536) div 1024 < 1024" by (rule less_mult_imp_div_less)
  then show "unat (0xd800 + drop_bit 10 (cp - 0x10000)) = 55296 + (unat cp - 65536) div 1024"
    by (simp only: unat_add_32 unat_drop_32 unat_sub_10000 [OF assms(1)]) simp
qed

lemma seq3_wf:
  assumes "0xe0 \<le> b0" "b0 \<le> 0xef" "(if b0 = 0xe0 then 0xa0 else 0x80) \<le> b1" "b1 \<le> 0xbf"
    "0x80 \<le> b2" "b2 \<le> 0xbf"
  shows "wf_seq [b0, b1, b2]"
proof -
  have w: "wtf8_width b0 = 3" "wtf8_lower b0 = (if b0 = 0xe0 then 0xa0 else 0x80)"
    "wtf8_upper b0 = 0xbf" "\<not> wtf8_invalid_lead b0" "\<not> b0 \<le> 0x7f"
    using assms(1,2)
    by (auto simp: wtf8_width_def wtf8_lower_def wtf8_upper_def wtf8_invalid_lead_def word_le_nat_alt)
  have "wtf8_good_conts (wtf8_lower b0) (wtf8_upper b0) (Suc (Suc 0)) [b1, b2] = Suc (Suc 0)"
    using assms(3-6) by (simp add: w)
  then have g: "wtf8_good_conts (wtf8_lower b0) (wtf8_upper b0) 2 [b1, b2] = 2"
    by (simp only: numeral_2_eq_2)
  show ?thesis
    using g by (simp add: wf_seq_def seq_at_def w(1,4,5))
qed

lemma enc3_bytes:
  assumes "s = 53248 + a * 64 + z" "a < 64" "z < 64"
  shows "\<exists>b1 b2. surrogate_enc3 s = [0xed, b1, b2] \<and> unat b1 = 128 + a \<and> unat b2 = 128 + z"
proof -
  have s': "s = (13 * 64 + a) * 64 + z" using assms(1) by simp
  have d: "s div 64 = 13 * 64 + a" "s mod 64 = z"
    unfolding s' using assms(3) by (simp_all only: mod_window div_mult_self3 div_less)
  have m: "s div 64 mod 64 = a" unfolding d(1) using assms(2) by (rule mod_window)
  have "unat (of_nat (128 + a) :: u8) = 128 + a" "unat (of_nat (128 + z) :: u8) = 128 + z"
    using assms(2,3) by (simp_all add: unat_128)
  then show ?thesis by (simp add: surrogate_enc3_def d(2) m)
qed

lemma enc3_low:
  assumes "56320 \<le> s" "s \<le> 57343"
  shows "wf_seq (surrogate_enc3 s)" "\<not> hi3_at (surrogate_enc3 s)" "lo3_at (surrogate_enc3 s @ ys)"
    "length (surrogate_enc3 s) = 3" "hd (surrogate_enc3 s) = 0xed"
proof -
  define m where "m = s - 56320"
  have m: "s = 56320 + m" "m < 1024" using assms by (simp_all add: m_def)
  have "m div 64 < 16" using m(2) by (intro less_mult_imp_div_less) simp
  then have a: "48 + m div 64 < 64" by simp
  have "s = 53248 + (48 + m div 64) * 64 + m mod 64"
    using m(1) by (simp add: algebra_simps) 
  then obtain b1 b2 where e: "surrogate_enc3 s = [0xed, b1, b2]"
    and u: "unat b1 = 128 + (48 + m div 64)" "unat b2 = 128 + m mod 64"
    using enc3_bytes [of s "48 + m div 64" "m mod 64"] a by auto
  have r: "0xb0 \<le> b1" "b1 \<le> 0xbf" "0x80 \<le> b2" "b2 \<le> 0xbf" "\<not> b1 \<le> 0xaf"
    using u a by (simp_all add: word_le_nat_alt)
  have "0x80 \<le> b1" using r(1) by (simp add: word_le_nat_alt)
  then show "wf_seq (surrogate_enc3 s)"
    unfolding e using r by (intro seq3_wf) simp_all
  show "\<not> hi3_at (surrogate_enc3 s)" using r(5) by (simp add: e hi3_at_def)
  show "lo3_at (surrogate_enc3 s @ ys)" using r by (simp add: e lo3_at_def)
  show "length (surrogate_enc3 s) = 3" "hd (surrogate_enc3 s) = 0xed" by (simp_all add: e)
qed

lemma enc3_high:
  assumes "55296 \<le> s" "s \<le> 56319"
  shows "wf_seq (surrogate_enc3 s)" "hi3_at (surrogate_enc3 s)" "\<not> lo3_at (surrogate_enc3 s @ ys)"
    "length (surrogate_enc3 s) = 3" "hd (surrogate_enc3 s) = 0xed"
proof -
  define m where "m = s - 55296"
  have m: "s = 55296 + m" "m < 1024" using assms by (simp_all add: m_def)
  have "m div 64 < 16" using m(2) by (intro less_mult_imp_div_less) simp
  then have a: "32 + m div 64 < 48" by simp
  have "s = 53248 + (32 + m div 64) * 64 + m mod 64"
    using m(1) by (simp add: algebra_simps)
  then obtain b1 b2 where e: "surrogate_enc3 s = [0xed, b1, b2]"
    and u: "unat b1 = 128 + (32 + m div 64)" "unat b2 = 128 + m mod 64"
    using enc3_bytes [of s "32 + m div 64" "m mod 64"] a by auto
  have r: "0xa0 \<le> b1" "b1 \<le> 0xaf" "0x80 \<le> b2" "b2 \<le> 0xbf" "\<not> 0xb0 \<le> b1" "b1 \<le> 0xbf"
    using u a by (simp_all add: word_le_nat_alt)
  have "0x80 \<le> b1" using r(1) by (simp add: word_le_nat_alt)
  then show "wf_seq (surrogate_enc3 s)"
    unfolding e using r by (intro seq3_wf) simp_all
  show "hi3_at (surrogate_enc3 s)" using r by (simp add: e hi3_at_def)
  show "\<not> lo3_at (surrogate_enc3 s @ ys)" using r(5) by (simp add: e lo3_at_def)
  show "length (surrogate_enc3 s) = 3" "hd (surrogate_enc3 s) = 0xed" by (simp_all add: e)
qed

section \<open>Interning; the scan of an ASCII string\<close>

lemma detect_string:
  assumes "buf = [] \<or> \<not> (hd buf = 0x80 \<or> hd buf = 0x81 \<or> hd buf = 0x82 \<or> hd buf = 0xff)"
  shows "fst (duk_unicode_wtf8_sanitize_detect buf) = sanitize_bytes buf"
  using assms
  by (cases buf) (auto simp: duk_unicode_wtf8_sanitize_detect_def Let_def sanitize_string_bytes)

lemma detect_symbol:
  assumes "buf \<noteq> []" "hd buf = 0x80 \<or> hd buf = 0x81 \<or> hd buf = 0x82 \<or> hd buf = 0xff"
  shows "fst (duk_unicode_wtf8_sanitize_detect buf) = buf"
proof -
  obtain ib rest where b: "buf = ib # rest" using assms(1) by (cases buf) auto
  have "\<not> ib \<le> 0x7f" using assms(2) b by (auto simp: word_le_nat_alt)
  then show ?thesis
    using assms(2) b
    by (auto simp: duk_unicode_wtf8_sanitize_detect_def Let_def duk_unicode_wtf8_sanitize_symbol_def
          duk__unicode_wtf8_sanitize_symbol_reference_def)
qed

lemma push_lstring_some:
  "\<exists>r. duk_push_lstring buf = Some r \<and> h_data r = fst (duk_unicode_wtf8_sanitize_detect buf)"
proof (cases "buf \<noteq> [] \<and> (hd buf = 0x80 \<or> hd buf = 0x81 \<or> hd buf = 0x82 \<or> hd buf = 0xff)")
  case True
  then have "length buf > 0 \<and> (buf ! 0 = 0x80 \<or> buf ! 0 = 0x81 \<or> buf ! 0 = 0x82 \<or> buf ! 0 = 0xff)"
    by (cases buf) auto
  then show ?thesis
    by (simp add: duk_push_lstring_def duk_hstring_init_charlen_def Let_def
          duk_hstring_get_bytelen_def)
next
  case False
  then have ns: "\<not> (length buf > 0 \<and> (buf ! 0 = 0x80 \<or> buf ! 0 = 0x81 \<or> buf ! 0 = 0x82 \<or> buf ! 0 = 0xff))"
    by (cases buf) auto
  have d: "fst (duk_unicode_wtf8_sanitize_detect buf) = sanitize_bytes buf"
    using False by (intro detect_string) auto
  have c: "duk_unicode_wtf8_charlength (sanitize_bytes buf) = Some (char_count (sanitize_bytes buf))"
    using sanitize_valid by (rule charlength_valid)
  show ?thesis
    using ns c
    by (simp add: duk_push_lstring_def duk_hstring_init_charlen_def Let_def d
          duk_hstring_get_bytelen_def duk_hstring_get_data_def)
qed

lemma scan_ascii:
  assumes "duk_unicode_is_valid_wtf8 xs" "char_count xs = length xs" "pos \<le> length xs"
  shows "scan_char2byte xs pos = (pos, pos)"
proof -
  obtain b c where s: "scan_char2byte xs pos = (b, c)" by (metis surj_pair)
  have p: "pos \<le> char_count xs" using assms(2,3) by simp
  note sp0 = scan_props [OF assms(1) p s]
  have sp: "b \<le> length xs" "c \<le> pos" "pos \<le> c + 1" "c \<le> b"
    "duk_unicode_is_valid_wtf8 (drop b xs)" "char_count (drop b xs) + c = char_count xs"
    "c \<noteq> pos \<longrightarrow> (\<exists>t p. drop b xs = t # p \<and> wtf8_width t = 4 \<and> seq_at t p)"
    using sp0 by blast+
  have le: "char_count (drop b xs) \<le> length (drop b xs)" using sp(5) by (rule char_count_le)
  have bc: "b = c" using sp(1,4,6) le assms(2) by simp
  have "c = pos"
  proof (rule ccontr)
    assume "c \<noteq> pos"
    then obtain t p where d: "drop b xs = t # p" "wtf8_width t = 4" using sp(7) by blast
    have "char_count (drop b xs) + 2 \<le> length (drop b xs)"
      using char_count_four [of t p] sp(5) d by simp
    then have "char_count (drop b xs) + 2 \<le> length xs - b" by simp
    then show False using sp(1,6) bc assms(2) by arith
  qed
  then show ?thesis using s bc by simp
qed

section \<open>The bytes handed to the interner by the substring function\<close>

lemma split_decode:
  assumes "duk_unicode_is_valid_wtf8 xs" "pos \<le> char_count xs" "scan_char2byte xs pos = (b, c)"
    "c \<noteq> pos"
  shows "\<exists>cp. duk_unicode_wtf8_decode_known (drop b xs) = Some cp \<and> 65536 \<le> unat cp
           \<and> unat cp < 1114112 \<and> scalar_at (drop b xs) = unat cp"
    "b + 4 \<le> length xs" "char_count xs < length xs"
proof -
  note sp0 = scan_props [OF assms(1-3)]
  have sp: "b \<le> length xs" "c \<le> b" "duk_unicode_is_valid_wtf8 (drop b xs)"
    "char_count (drop b xs) + c = char_count xs"
    using sp0 by blast+
  obtain t p where d: "drop b xs = t # p" "wtf8_width t = 4" "seq_at t p"
    using sp0 assms(4) by blast
  obtain cp where cp: "duk_unicode_wtf8_decode_known (t # p) = Some cp"
    "65536 \<le> unat cp \<and> unat cp < 1114112"
    using seq_at_decode [OF d(3)] d(2) by blast
  then show "\<exists>cp. duk_unicode_wtf8_decode_known (drop b xs) = Some cp \<and> 65536 \<le> unat cp
           \<and> unat cp < 1114112 \<and> scalar_at (drop b xs) = unat cp"
    by (simp add: d(1) scalar_at_def)
  have "3 \<le> length p" using seq_at_length [OF d(3)] d(2) by simp
  then have "4 \<le> length (drop b xs)" by (simp add: d(1))
  then show "b + 4 \<le> length xs" by simp
  have "char_count (drop b xs) + 2 \<le> length (drop b xs)"
    using char_count_four [of t p] sp(3) d by simp
  then have "char_count (drop b xs) + 2 \<le> length xs - b" by simp
  then show "char_count xs < length xs" using sp(1,2,4) by arith
qed

lemma substring_start_val:
  assumes "duk_unicode_is_valid_wtf8 (h_data h)" "start \<le> char_count (h_data h)"
    "duk_strcache_scan_char2byte_wtf8 h start = (sb, sc)"
  shows "\<exists>pfx. substring_start h start = Some (pfx, if sc \<noteq> start then sb + 4 else sb)
     \<and> (if sc \<noteq> start
         then surrogate_bytes pfx
              = surrogate_enc3 (56320 + (scalar_at (drop sb (h_data h)) - 65536) mod 1024)
            \<and> pfx \<noteq> 0
         else pfx = 0)"
proof (cases "sc \<noteq> start")
  case False
  then show ?thesis using assms(3) by (simp add: substring_start_def)
next
  case True
  have s: "scan_char2byte (h_data h) start = (sb, sc)"
    using assms(3) by (simp add: duk_strcache_scan_char2byte_wtf8_def duk_hstring_get_data_def)
  obtain cp where cp: "duk_unicode_wtf8_decode_known (drop sb (h_data h)) = Some cp"
    "65536 \<le> unat cp" "scalar_at (drop sb (h_data h)) = unat cp"
    using split_decode(1) [OF assms(1,2) s True] by blast
  define pfx :: u32 where "pfx = 0xdc00 + ((cp - 0x10000) AND 0x3ff)"
  have u: "unat pfx = 56320 + (unat cp - 65536) mod 1024"
    unfolding pfx_def by (rule unat_low_surrogate [OF cp(2)])
  then have "unat pfx \<noteq> 0" by simp
  then have nz: "pfx \<noteq> 0" by (metis unat_0)
  have "substring_start h start = Some (pfx, sb + 4)"
    using assms(3) True cp(1) by (simp add: substring_start_def pfx_def duk_hstring_get_data_def)
  then show ?thesis
    using True nz by (simp add: surrogate_bytes_enc3 u cp(3))
qed

lemma substring_end_val:
  assumes "duk_unicode_is_valid_wtf8 (h_data h)" "end \<le> char_count (h_data h)"
    "duk_strcache_scan_char2byte_wtf8 h end = (eb, ec)"
  shows "\<exists>sfx. substring_end h end = Some (sfx, eb)
     \<and> (if ec \<noteq> end
         then surrogate_bytes sfx
              = surrogate_enc3 (55296 + (scalar_at (drop eb (h_data h)) - 65536) div 1024)
            \<and> (scalar_at (drop eb (h_data h)) - 65536) div 1024 < 1024 \<and> sfx \<noteq> 0
         else sfx = 0)"
proof (cases "ec \<noteq> end")
  case False
  then show ?thesis using assms(3) by (simp add: substring_end_def)
next
  case True
  have s: "scan_char2byte (h_data h) end = (eb, ec)"
    using assms(3) by (simp add: duk_strcache_scan_char2byte_wtf8_def duk_hstring_get_data_def)
  obtain cp where cp: "duk_unicode_wtf8_decode_known (drop eb (h_data h)) = Some cp"
    "65536 \<le> unat cp" "unat cp < 1114112" "scalar_at (drop eb (h_data h)) = unat cp"
    using split_decode(1) [OF assms(1,2) s True] by blast
  define sfx :: u32 where "sfx = 0xd800 + drop_bit 10 (cp - 0x10000)"
  have u: "unat sfx = 55296 + (unat cp - 65536) div 1024" "(unat cp - 65536) div 1024 < 1024"
    unfolding sfx_def by (rule unat_high_surrogate [OF cp(2,3)])+
  then have "unat sfx \<noteq> 0" by simp
  then have nz: "sfx \<noteq> 0" by (metis unat_0)
  have "substring_end h end = Some (sfx, eb)"
    using assms(3) True cp(1) by (simp add: substring_end_def sfx_def duk_hstring_get_data_def)
  then show ?thesis
    using True nz u(2) by (simp add: surrogate_bytes_enc3 u(1) cp(4))
qed

lemma substring_bytes_struct:
  assumes "hstring_ok h" "start < end" "end \<le> duk_hstring_get_charlen h"
    "duk_strcache_scan_char2byte_wtf8 h start = (sb, sc)"
    "duk_strcache_scan_char2byte_wtf8 h end = (eb, ec)"
  shows "substring_bytes h start end = Some (
      (if sc \<noteq> start
       then surrogate_enc3 (56320 + (scalar_at (drop sb (h_data h)) - 65536) mod 1024) else [])
      @ take (eb - (if sc \<noteq> start then sb + 4 else sb))
          (drop (if sc \<noteq> start then sb + 4 else sb) (h_data h))
      @ (if ec \<noteq> end
         then surrogate_enc3 (55296 + (scalar_at (drop eb (h_data h)) - 65536) div 1024) else []))"
proof -
  have v: "duk_unicode_is_valid_wtf8 (h_data h)"
    and cl: "duk_hstring_get_charlen h = char_count (h_data h)"
    using assms(1) by (simp_all add: hstring_ok_def)
  have e: "end \<le> char_count (h_data h)" and st: "start \<le> char_count (h_data h)"
    using assms(2,3) cl by simp_all
  have s1: "scan_char2byte (h_data h) start = (sb, sc)"
    using assms(4) by (simp add: duk_strcache_scan_char2byte_wtf8_def duk_hstring_get_data_def)
  have s2: "scan_char2byte (h_data h) end = (eb, ec)"
    using assms(5) by (simp add: duk_strcache_scan_char2byte_wtf8_def duk_hstring_get_data_def)
  show ?thesis
  proof (cases "duk_hstring_get_charlen h = duk_hstring_get_bytelen h")
    case True
    then have a: "char_count (h_data h) = length (h_data h)"
      using cl by (simp add: duk_hstring_get_bytelen_def)
    have "scan_char2byte (h_data h) start = (start, start)"
      "scan_char2byte (h_data h) end = (end, end)"
      using scan_ascii [OF v a] st e a by simp_all
    then have "sb = start" "sc = start" "eb = end" "ec = end" using s1 s2 by simp_all
    then show ?thesis
      using True assms(2) e a
      by (simp add: substring_bytes_def duk_hstring_get_bytelen_def duk_hstring_get_data_def)
  next
    case False
    obtain pfx where p: "substring_start h start = Some (pfx, if sc \<noteq> start then sb + 4 else sb)"
      "if sc \<noteq> start
         then surrogate_bytes pfx
              = surrogate_enc3 (56320 + (scalar_at (drop sb (h_data h)) - 65536) mod 1024)
            \<and> pfx \<noteq> 0
         else pfx = 0"
      using substring_start_val [OF v st assms(4)] by blast
    obtain sfx where s: "substring_end h end = Some (sfx, eb)"
      "if ec \<noteq> end
         then surrogate_bytes sfx
              = surrogate_enc3 (55296 + (scalar_at (drop eb (h_data h)) - 65536) div 1024)
            \<and> (scalar_at (drop eb (h_data h)) - 65536) div 1024 < 1024 \<and> sfx \<noteq> 0
         else sfx = 0"
      using substring_end_val [OF v e assms(5)] by blast
    have m: "(if sc \<noteq> start then sb + 4 else sb) \<le> eb"
      by (rule scan_mono [OF v assms(2) e s1 s2])
    have eb: "eb \<le> length (h_data h)" using scan_props [OF v e s2] by blast
    have g: "\<not> (eb < (if sc \<noteq> start then sb + 4 else sb) \<or> length (h_data h) < eb)"
      using m eb by simp
    show ?thesis
      using False assms(2) p s g
      by (simp only: substring_bytes_def Let_def duk_hstring_get_data_def option.case prod.case
            if_False) (auto split: if_splits)
  qed
qed

section \<open>Interning a manufactured surrogate\<close>

lemma sanitize_enc3_low:
  assumes "56320 \<le> s" "s \<le> 57343"
  shows "fst (duk_unicode_wtf8_sanitize_detect (surrogate_enc3 s @ rest))
    = surrogate_enc3 s @ sanitize_bytes rest"
proof -
  note l = enc3_low [OF assms]
  have "hd (surrogate_enc3 s @ rest) = 0xed" using l(4,5) by (cases "surrogate_enc3 s") auto
  then have "fst (duk_unicode_wtf8_sanitize_detect (surrogate_enc3 s @ rest))
      = sanitize_bytes (surrogate_enc3 s @ rest)"
    by (intro detect_string) simp
  then show ?thesis
    using sanitize_wf_seq(1) [OF l(1), of rest] l(2) by simp
qed

lemma sanitize_enc3_high:
  assumes "55296 \<le> s" "s \<le> 56319"
  shows "\<exists>front. fst (duk_unicode_wtf8_sanitize_detect (pre @ surrogate_enc3 s))
    = front @ surrogate_enc3 s"
proof (cases "(pre @ surrogate_enc3 s) \<noteq> [] \<and> (hd (pre @ surrogate_enc3 s) = 0x80
    \<or> hd (pre @ surrogate_enc3 s) = 0x81 \<or> hd (pre @ surrogate_enc3 s) = 0x82
    \<or> hd (pre @ surrogate_enc3 s) = 0xff)")
  case True
  then have "fst (duk_unicode_wtf8_sanitize_detect (pre @ surrogate_enc3 s)) = pre @ surrogate_enc3 s"
    by (intro detect_symbol) blast+
  then show ?thesis by blast
next
  case False
  note l = enc3_high [OF assms]
  have d: "fst (duk_unicode_wtf8_sanitize_detect (pre @ surrogate_enc3 s))
      = sanitize_bytes (pre @ surrogate_enc3 s)"
    using False by (intro detect_string) blast
  have nc: "surrogate_enc3 s = [] \<or> \<not> (0x80 \<le> hd (surrogate_enc3 s) \<and> hd (surrogate_enc3 s) \<le> 0xbf)"
    by (simp add: l(5))
  have nl: "\<not> lo3_at (surrogate_enc3 s)" using l(3) [of "[]"] by simp
  have "sanitize_bytes (surrogate_enc3 s @ []) = surrogate_enc3 s @ sanitize_bytes []"
    by (rule sanitize_wf_seq(1) [OF l(1)]) (simp add: lo3_at_def)
  then have e: "sanitize_bytes (surrogate_enc3 s) = surrogate_enc3 s"
    by (simp add: sanitize_bytes_Nil)
  have "sanitize_bytes (pre @ surrogate_enc3 s) = sanitize_bytes pre @ surrogate_enc3 s"
    using sanitize_bytes_append_nocont [OF nc nl, of pre] e by simp
  then show ?thesis using d by simp
qed

lemmas substring_eval = duk_push_wtf8_substring_hstring_def substring_bytes_def substring_start_def
  substring_end_def duk_strcache_scan_char2byte_wtf8_def duk_hstring_get_charlen_def
  duk_hstring_get_bytelen_def duk_hstring_get_data_def duk_unicode_wtf8_decode_known_def
  surrogate_bytes_def duk_push_lstring_def duk_unicode_wtf8_sanitize_detect_def
  duk_hstring_init_charlen_def duk_unicode_wtf8_charlength_def Let_def

section \<open>The search loop\<close>

lemma sint_small: "unat (c::u32) < 2147483648 \<Longrightarrow> sint c = int (unat c)"
proof -
  assume a: "unat c < 2147483648"
  have "int (unat c) < 2147483648" using a by linarith
  then have u: "uint c < 2 ^ 31" by simp
  have "- (2 ^ 31) \<le> (0::int)" by simp
  also have "(0::int) \<le> uint c" by simp
  finally have l: "- (2 ^ 31) \<le> uint c" .
  have "sint c = signed_take_bit 31 (uint c)" by (simp add: sint_uint)
  also have "\<dots> = uint c"
    by (rule signed_take_bit_int_eq_self) (rule l, rule u)
  finally show ?thesis by simp
qed

lemma substring_empty:
  assumes "hstring_ok h" "i \<le> duk_hstring_get_charlen h"
  shows "\<exists>r. duk_push_wtf8_substring_hstring h i i = Some r \<and> h_data r = []"
proof -
  have "substring_bytes h i i = Some []"
    using assms(2) by (simp add: substring_bytes_def Let_def)
  moreover obtain r where "duk_push_lstring [] = Some r"
    "h_data r = fst (duk_unicode_wtf8_sanitize_detect [])"
    using push_lstring_some [of "[]"] by (elim exE conjE)
  moreover have "fst (duk_unicode_wtf8_sanitize_detect []) = []"
    using detect_string [of "[]"] by (simp add: sanitize_bytes_Nil)
  ultimately show ?thesis
    by (simp add: duk_push_wtf8_substring_hstring_def)
qed


lemma substring_some:
  assumes "hstring_ok h" "i \<le> j" "j \<le> duk_hstring_get_charlen h"
  shows "\<exists>r. duk_push_wtf8_substring_hstring h i j = Some r"
proof (cases "i = j")
  case True
  obtain r where "duk_push_wtf8_substring_hstring h j j = Some r"
    using substring_empty [OF assms(1) assms(3)] by (elim exE conjE)
  then have "\<exists>r. duk_push_wtf8_substring_hstring h j j = Some r" by (rule exI)
  then show ?thesis by (simp only: True)
next
  case False
  then have lt: "i < j" using assms(2) by simp
  obtain sb sc where s: "duk_strcache_scan_char2byte_wtf8 h i = (sb, sc)"
    by (cases "duk_strcache_scan_char2byte_wtf8 h i")
  obtain eb ec where e: "duk_strcache_scan_char2byte_wtf8 h j = (eb, ec)"
    by (cases "duk_strcache_scan_char2byte_wtf8 h j")
  obtain buf where b: "substring_bytes h i j = Some buf"
    using substring_bytes_struct [OF assms(1) lt assms(3) s e] by (rule that)
  obtain r where "duk_push_lstring buf = Some r"
    using push_lstring_some [of buf] by (elim exE conjE)
  then have "duk_push_wtf8_substring_hstring h i j = Some r"
    by (simp only: duk_push_wtf8_substring_hstring_def b option.case)
  then show ?thesis by (rule exI)
qed

lemma search_result_step:
  assumes "\<not> match_at h n k" "search_result h n (Suc k) res"
  shows "search_result h n k res"
proof -
  have a: "\<And>i. k \<le> i \<Longrightarrow> i = k \<or> Suc k \<le> i" by arith
  from assms(2) consider
      (none) "res = - 1" "\<forall>i. Suc k \<le> i \<longrightarrow> \<not> match_at h n i"
    | (some) i where "res = int i" "Suc k \<le> i" "match_at h n i"
        "\<forall>j. Suc k \<le> j \<and> j < i \<longrightarrow> \<not> match_at h n j"
    by blast
  then show ?thesis
  proof cases
    case none
    have "\<forall>i. k \<le> i \<longrightarrow> \<not> match_at h n i"
      using a none(2) assms(1) by blast
    then show ?thesis using none(1) by blast
  next
    case some
    have "\<forall>j. k \<le> j \<and> j < i \<longrightarrow> \<not> match_at h n j"
      using a some(4) assms(1) by blast
    moreover have "k \<le> i" using some(2) by simp
    ultimately show ?thesis using some(1,3) by blast
  qed
qed

lemma search_loop_spec:
  assumes ok: "hstring_ok h" and hb: "duk_hstring_get_charlen h < 2147483648"
    and nb: "duk_hstring_get_charlen n < 2147483648"
  shows "\<exists>res. search_forwards_loop h n (h_clen h) (h_clen n) c = Some res
     \<and> search_result h n (unat c) res"
proof (induction "Suc (duk_hstring_get_charlen h) - unat c" arbitrary: c rule: less_induct)
  case less
  define L where "L = duk_hstring_get_charlen h"
  define M where "M = duk_hstring_get_charlen n"
  have L: "unat (h_clen h) = L" and M: "unat (h_clen n) = M"
    by (simp_all add: L_def M_def duk_hstring_get_charlen_def)
  have Lb: "L < 2147483648" and Mb: "M < 2147483648" using hb nb by (simp_all add: L_def M_def)
  have e: "search_forwards_loop h n (h_clen h) (h_clen n) c =
     (if c \<le> h_clen h then
        (if c + h_clen n \<le> h_clen h then
           (case duk_push_wtf8_substring_hstring h (unat c) (unat (c + h_clen n)) of
              None \<Rightarrow> None
            | Some h_tmp \<Rightarrow>
                if duk_hstring_get_data h_tmp = duk_hstring_get_data n
                then Some (sint c)
                else search_forwards_loop h n (h_clen h) (h_clen n) (c + 1))
         else search_forwards_loop h n (h_clen h) (h_clen n) (c + 1))
      else Some (- 1))"
    by (rule search_forwards_loop.simps)
  show ?case
  proof (cases "c \<le> h_clen h")
    case False
    then have gt: "L < unat c" by (simp add: word_le_nat_alt L)
    have "search_forwards_loop h n (h_clen h) (h_clen n) c = Some (- 1)"
      using False by (simp only: e if_False)
    moreover have "\<forall>i. unat c \<le> i \<longrightarrow> \<not> match_at h n i"
      using gt by (simp add: match_at_def L_def [symmetric])
    ultimately show ?thesis by blast
  next
    case True
    then have cL: "unat c \<le> L" by (simp add: word_le_nat_alt L)
    have c1: "unat (c + 1) = Suc (unat c)"
      using cL Lb by (simp add: unat_add_32)
    have "Suc (duk_hstring_get_charlen h) - unat (c + 1) < Suc (duk_hstring_get_charlen h) - unat c"
      using cL by (simp add: c1 L_def)
    from less [OF this] obtain res' where
      r': "search_forwards_loop h n (h_clen h) (h_clen n) (c + 1) = Some res'"
      and s': "search_result h n (Suc (unat c)) res'"
      by (simp only: c1) (elim exE conjE)
    have cm: "unat (c + h_clen n) = unat c + M"
      using cL Lb Mb by (simp add: unat_add_32 M)
    show ?thesis
    proof (cases "c + h_clen n \<le> h_clen h")
      case f: False
      then have "L < unat c + M" by (simp add: word_le_nat_alt L cm)
      then have nm: "\<not> match_at h n (unat c)"
        by (simp add: match_at_def L_def [symmetric] M_def [symmetric])
      have "search_forwards_loop h n (h_clen h) (h_clen n) c = Some res'"
        using True f by (simp only: e if_True if_False r')
      then show ?thesis using search_result_step [OF nm s'] by blast
    next
      case t: True
      then have le: "unat c + M \<le> L" by (simp add: word_le_nat_alt L cm)
      have "unat c \<le> unat c + M" by simp
      from substring_some [OF ok this] le
      obtain r where r: "duk_push_wtf8_substring_hstring h (unat c) (unat c + M) = Some r"
        by (auto simp add: L_def)
      show ?thesis
      proof (cases "duk_hstring_get_data r = duk_hstring_get_data n")
        case eq: True
        have si: "sint c = int (unat c)"
          using cL Lb by (intro sint_small) simp
        have l: "search_forwards_loop h n (h_clen h) (h_clen n) c = Some (int (unat c))"
          using True t eq by (simp only: e if_True cm r option.case simp_thms si)
        have m: "match_at h n (unat c)"
          using le r eq by (simp add: match_at_def L_def [symmetric] M_def [symmetric])
        have "\<forall>j. unat c \<le> j \<and> j < unat c \<longrightarrow> \<not> match_at h n j" by auto
        with m have "\<exists>i. int (unat c) = int i \<and> unat c \<le> i \<and> match_at h n i
              \<and> (\<forall>j. unat c \<le> j \<and> j < i \<longrightarrow> \<not> match_at h n j)"
          by (intro exI [of _ "unat c"] conjI refl order_refl)
        then have "search_result h n (unat c) (int (unat c))"
          by (rule disjI2)
        with l show ?thesis by (intro exI conjI)
      next
        case ne: False
        have nm: "\<not> match_at h n (unat c)"
          using r ne by (simp add: match_at_def L_def [symmetric] M_def [symmetric])
        have "search_forwards_loop h n (h_clen h) (h_clen n) c = Some res'"
          using True t ne by (simp only: e if_True if_False cm r option.case r')
        then show ?thesis using search_result_step [OF nm s'] by blast
      qed
    qed
  qed
qed


lemma empty_needle_match:
  assumes "hstring_ok h" "hstring_ok n" "duk_hstring_get_data n = []"
    "k \<le> duk_hstring_get_charlen h"
  shows "match_at h n k"
proof -
  have z: "duk_hstring_get_charlen n = 0"
    using assms(2,3) by (simp add: hstring_ok_def duk_hstring_get_data_def)
  obtain r where "duk_push_wtf8_substring_hstring h k k = Some r" "h_data r = []"
    using substring_empty [OF assms(1) assms(4)] by (elim exE conjE)
  then show ?thesis
    using assms(3,4) by (simp add: match_at_def z duk_hstring_get_data_def)
qed

section \<open>Steps of the sanitizer on the returned bytes\<close>

lemma sanitize_string_step:
  assumes "sanitize_iter t p = ((bs, n), r)"
  shows "fst (duk_unicode_wtf8_sanitize_string (t # p))
    = bs @ fst (duk_unicode_wtf8_sanitize_string r)"
  using sanitize_bytes_step(1) [OF assms] by (simp add: sanitize_string_bytes)

lemma sanitize_string_Nil: "fst (duk_unicode_wtf8_sanitize_string []) = []"
  by (simp add: sanitize_string_bytes sanitize_bytes_Nil)

lemma iter_scalar:
  assumes "seq_at t p" "\<not> (high_surrogate_at (t # p) \<and> low_surrogate_at (drop 2 p))"
  shows "sanitize_iter t p
    = ((t # take (wtf8_width t - 1) p, word_of_nat (wtf8_width t - 1)), drop (wtf8_width t - 1) p)"
proof -
  have "wtf8_event_at t p = Scalar (1 + (wtf8_width t - 1))"
    using assms by (simp add: wtf8_event_at_def seq_at_def Let_def)
  then show ?thesis
    by (simp add: sanitize_iter_event wtf8_event_step_def)
qed

lemma iter_surrogate_pair:
  assumes "seq_at t p" "high_surrogate_at (t # p)" "low_surrogate_at (drop 2 p)"
  shows "sanitize_iter t p
    = ((utf8_enc4 (combine_surrogates (scalar_at (t # p)) (scalar_at (drop 2 p))), 3), drop 5 p)"
proof -
  have "wtf8_event_at t p = SurrogatePair"
    using assms by (simp add: wtf8_event_at_def seq_at_def Let_def)
  then show ?thesis
    by (simp add: sanitize_iter_event wtf8_event_step_def)
qed

section \<open>The sequence at a split offset\<close>

lemma seq4_scalar:
  assumes "seq_at t p" "wtf8_width t = 4"
  shows "\<exists>c1 c2 c3 q. p = c1 # c2 # c3 # q
     \<and> scalar_at (t # p)
       = (unat t - 240) * 262144 + (unat c1 - 128) * 4096 + (unat c2 - 128) * 64 + (unat c3 - 128)"
proof -
  have na: "\<not> t \<le> 0x7f" and nl: "\<not> wtf8_invalid_lead t"
    and g: "wtf8_good_conts (wtf8_lower t) (wtf8_upper t) (wtf8_width t - 1) p = wtf8_width t - 1"
    using assms(1) by (simp_all add: seq_at_def)
  note r = lead_ranges [OF na nl]
  have four: "\<not> t \<le> 0xef"
    using assms(2) by (simp add: wtf8_width_def split: if_splits)
  have g3: "wtf8_good_conts (wtf8_lower t) (wtf8_upper t) 3 p = 3"
    using g by (simp add: assms(2))
  obtain c1 c2 c3 rest where p: "p = c1 # c2 # c3 # rest"
    and c: "wtf8_lower t \<le> c1" "c1 \<le> wtf8_upper t"
      "0x80 \<le> c2" "c2 \<le> 0xbf" "0x80 \<le> c3" "c3 \<le> 0xbf"
    using good_conts_3 [OF g3] by blast
  have t4: "0xf0 \<le> t" using four by (simp add: word_le_nat_alt)
  obtain a where a: "a < 5" "unat t = 240 + a"
    using lead4_split [OF t4 r(2)] by blast
  have c1lo: "0x80 \<le> c1"
    using lower_upper_cont(1) [of t] c(1) by (rule order_trans)
  have c1hi: "c1 \<le> 0xbf"
    using c(2) lower_upper_cont(2) [of t] by (rule order_trans)
  obtain x where x: "x < 64" "unat c1 = 128 + x"
    using cont_split [OF c1lo c1hi] by blast
  obtain y where y: "y < 64" "unat c2 = 128 + y"
    using cont_split [OF c(3,4)] by blast
  obtain z where z: "z < 64" "unat c3 = 128 + z"
    using cont_split [OF c(5,6)] by blast
  have a8: "a < 8" using a(1) by simp
  obtain cp where d: "duk_unicode_wtf8_decode_known (t # c1 # c2 # c3 # rest) = Some cp"
    "unat cp = a * 262144 + x * 4096 + y * 64 + z"
    using decode_known_seq4 [OF a(2) a8 x(2) x(1) y(2) y(1) z(2) z(1)] by blast
  have "scalar_at (t # p) = a * 262144 + x * 4096 + y * 64 + z"
    by (simp only: scalar_at_def p d option.case)
  then have "scalar_at (t # p)
       = (unat t - 240) * 262144 + (unat c1 - 128) * 4096 + (unat c2 - 128) * 64 + (unat c3 - 128)"
    by (simp add: a(2) x(2) y(2) z(2))
  then show ?thesis using p by blast
qed

lemma scan_split_seq:
  assumes "duk_unicode_is_valid_wtf8 xs" "pos \<le> char_count xs" "scan_char2byte xs pos = (b, c)"
    "c \<noteq> pos"
  shows "\<exists>t c1 c2 c3 q. drop b xs = t # c1 # c2 # c3 # q \<and> wtf8_width t = 4
      \<and> seq_at t (c1 # c2 # c3 # q)
      \<and> scalar_at (drop b xs)
        = (unat t - 240) * 262144 + (unat c1 - 128) * 4096 + (unat c2 - 128) * 64
          + (unat c3 - 128)"
    "0x10000 \<le> scalar_at (drop b xs)" "scalar_at (drop b xs) \<le> 0x10ffff"
proof -
  obtain t p where d: "drop b xs = t # p" "wtf8_width t = 4" "seq_at t p"
    using scan_props [OF assms(1-3)] assms(4) by blast
  obtain c1 c2 c3 q where q: "p = c1 # c2 # c3 # q"
    "scalar_at (t # p)
       = (unat t - 240) * 262144 + (unat c1 - 128) * 4096 + (unat c2 - 128) * 64 + (unat c3 - 128)"
    using seq4_scalar [OF d(3) d(2)] by blast
  show "\<exists>t c1 c2 c3 q. drop b xs = t # c1 # c2 # c3 # q \<and> wtf8_width t = 4
      \<and> seq_at t (c1 # c2 # c3 # q)
      \<and> scalar_at (drop b xs)
        = (unat t - 240) * 262144 + (unat c1 - 128) * 4096 + (unat c2 - 128) * 64
          + (unat c3 - 128)"
    using d q by (intro exI [of _ t] exI [of _ c1] exI [of _ c2] exI [of _ c3] exI [of _ q]) simp
  obtain cp :: u32 where cp: "65536 \<le> unat cp" "unat cp < 1114112"
    "scalar_at (drop b xs) = unat cp"
    using split_decode(1) [OF assms] by blast
  show "0x10000 \<le> scalar_at (drop b xs)" using cp(1) by (simp only: cp(3))
  show "scalar_at (drop b xs) \<le> 0x10ffff" using cp(2) by (simp only: cp(3))
qed

section \<open>Symbol detection\<close>

text \<open>
  Claim C9. A non-empty input whose first byte is one of the reserved markers 0x80, 0x81,
  0x82, 0xFF is a symbol: \<open>duk_unicode_wtf8_sanitize_detect\<close> copies all of its bytes
  verbatim and returns the input length. Every other input, the empty one included, is a
  string and goes through the WTF-8 sanitizer.
\<close>

theorem sanitize_detect_symbol_or_string:
  "(str \<noteq> [] \<and> (hd str = 0x80 \<or> hd str = 0x81 \<or> hd str = 0x82 \<or> hd str = 0xff)
      \<longrightarrow> duk_unicode_wtf8_sanitize_detect str = (str, word_of_nat (length str)))
   \<and> (\<not> (str \<noteq> [] \<and> (hd str = 0x80 \<or> hd str = 0x81 \<or> hd str = 0x82 \<or> hd str = 0xff))
      \<longrightarrow> duk_unicode_wtf8_sanitize_detect str = duk_unicode_wtf8_sanitize_string str)"
proof (cases str)
  case Nil
  then show ?thesis
    by (simp add: duk_unicode_wtf8_sanitize_detect_def)
next
  case (Cons ib rest)
  have m: "\<not> (0x80::u8) \<le> 0x7f" "\<not> (0x81::u8) \<le> 0x7f" "\<not> (0x82::u8) \<le> 0x7f"
    "\<not> (0xff::u8) \<le> 0x7f"
    by simp_all
  show ?thesis
    using Cons m
    by (auto simp: duk_unicode_wtf8_sanitize_detect_def Let_def
          duk_unicode_wtf8_sanitize_symbol_def duk__unicode_wtf8_sanitize_symbol_reference_def)
qed

theorem sanitize_detect_symbol_or_string_witness:
  "([0x80, 0x41, 0xc3] :: u8 list) \<noteq> []
   \<and> hd ([0x80, 0x41, 0xc3] :: u8 list) = 0x80
   \<and> duk_unicode_wtf8_sanitize_detect [0x80, 0x41, 0xc3] = ([0x80, 0x41, 0xc3], 3)
   \<and> duk_unicode_wtf8_sanitize_detect [] = duk_unicode_wtf8_sanitize_string []"
  using sanitize_detect_symbol_or_string [of "[0x80, 0x41, 0xc3]"]
    sanitize_detect_symbol_or_string [of "[]"]
  by simp


section \<open>Validity of the sanitizer's output\<close>

text \<open>
  Claim C3. For every input byte string the output of \<open>duk_unicode_wtf8_sanitize_string\<close>
  is accepted by \<open>duk_unicode_is_valid_wtf8\<close>. The validator accepts exactly the strings
  made of ASCII bytes and complete sequences: no continuation byte, 0xC0, 0xC1 or
  0xF5-0xFF as initial byte, no truncated sequence, the first continuation byte at least
  0xA0 after 0xE0 and at least 0x90 after 0xF0 (no overlong encoding), at most 0x8F after
  0xF4 (no codepoint above U+10FFFF); 3-byte surrogates are accepted.
\<close>

theorem sanitize_string_output_valid:
  "duk_unicode_is_valid_wtf8 (fst (duk_unicode_wtf8_sanitize_string b))
   \<and> duk_unicode_is_valid_wtf8 (t # p) =
       (if t \<le> 0x7f then duk_unicode_is_valid_wtf8 p
        else \<not> wtf8_invalid_lead t
             \<and> wtf8_good_conts (wtf8_lower t) (wtf8_upper t) (wtf8_width t - 1) p = wtf8_width t - 1
             \<and> duk_unicode_is_valid_wtf8 (drop (wtf8_width t - 1) p))
   \<and> duk_unicode_is_valid_wtf8 [0xed, 0xa0, 0x80]
   \<and> duk_unicode_is_valid_wtf8 [0xed, 0xbf, 0xbf]"
proof -
  have "duk_unicode_is_valid_wtf8 (fst (duk_unicode_wtf8_sanitize_string b))"
    by (simp add: sanitize_string_bytes sanitize_valid)
  moreover have "duk_unicode_is_valid_wtf8 (t # p) =
       (if t \<le> 0x7f then duk_unicode_is_valid_wtf8 p
        else \<not> wtf8_invalid_lead t
             \<and> wtf8_good_conts (wtf8_lower t) (wtf8_upper t) (wtf8_width t - 1) p = wtf8_width t - 1
             \<and> duk_unicode_is_valid_wtf8 (drop (wtf8_width t - 1) p))"
    by (simp only: valid_unfold [of t p] seq_at_def) auto
  moreover have "duk_unicode_is_valid_wtf8 [0xed, 0xa0, 0x80]" by simp
  moreover have "duk_unicode_is_valid_wtf8 [0xed, 0xbf, 0xbf]" by simp
  ultimately show ?thesis by blast
qed

section \<open>Idempotence\<close>

text \<open>
  Claim C7. Sanitizing the output of the sanitizer changes nothing: the output bytes and
  the returned length of \<open>duk_unicode_wtf8_sanitize_string\<close> applied to its own output
  are those of the first application.
\<close>

theorem sanitize_string_idempotent:
  "duk_unicode_wtf8_sanitize_string (fst (duk_unicode_wtf8_sanitize_string b))
   = duk_unicode_wtf8_sanitize_string b"
  by (simp add: sanitize_string_bytes sanitize_bytes_idem)


section \<open>Valid input\<close>

text \<open>
  Claim C1. On input that is already valid WTF-8 the output of
  \<open>duk_unicode_wtf8_sanitize_string\<close> is the input, sequence by sequence, except that a
  3-byte high surrogate immediately followed by a 3-byte low surrogate is replaced by the
  4-byte encoding of \<open>0x10000 + ((hi - 0xD800) << 10) + (lo - 0xDC00)\<close>; every other
  sequence, a lone surrogate included, is copied unchanged.
\<close>

theorem sanitize_string_on_valid_input:
  assumes "duk_unicode_is_valid_wtf8 b"
  shows "fst (duk_unicode_wtf8_sanitize_string b) = coalesce_pairs b"
  using assms by (simp add: sanitize_string_bytes sanitize_coalesce)

theorem sanitize_string_on_valid_input_witness:
  "duk_unicode_is_valid_wtf8 [0xed, 0xa0, 0xbd, 0xed, 0xb8, 0x80]
   \<and> fst (duk_unicode_wtf8_sanitize_string [0xed, 0xa0, 0xbd, 0xed, 0xb8, 0x80])
       = [0xf0, 0x9f, 0x98, 0x80]
   \<and> duk_unicode_is_valid_wtf8 [0xed, 0xa0, 0xbd, 0x41]
   \<and> fst (duk_unicode_wtf8_sanitize_string [0xed, 0xa0, 0xbd, 0x41]) = [0xed, 0xa0, 0xbd, 0x41]"
proof -
  have v1: "duk_unicode_is_valid_wtf8 [0xed, 0xa0, 0xbd, 0xed, 0xb8, 0x80]" by simp
  have v2: "duk_unicode_is_valid_wtf8 [0xed, 0xa0, 0xbd, 0x41]" by simp
  have c1: "coalesce_pairs [0xed, 0xa0, 0xbd, 0xed, 0xb8, 0x80] = [0xf0, 0x9f, 0x98, 0x80]"
    by (simp add: wtf8_eval)
  have c2: "coalesce_pairs [0xed, 0xa0, 0xbd, 0x41] = [0xed, 0xa0, 0xbd, 0x41]"
    by (simp add: wtf8_eval)
  show ?thesis
    using sanitize_string_on_valid_input [OF v1] sanitize_string_on_valid_input [OF v2] v1 v2
    by (simp only: c1 c2)
qed

section \<open>Invalid sequences\<close>

text \<open>
  Claim C2. An invalid sequence is replaced by exactly one U+FFFD, the bytes EF BF BD. An
  invalid initial byte (a continuation byte, 0xC0, 0xC1, 0xF5-0xFF) is replaced alone. After
  a valid initial byte \<open>t\<close> and fewer acceptable continuation bytes \<open>cs\<close> than \<open>t\<close>
  announces, the end of the input (truncation) or a byte outside the range allowed at that
  place (overlong encoding, codepoint out of range, not a continuation byte) ends the
  sequence: \<open>t\<close> and \<open>cs\<close> are replaced, and the offending byte is not consumed but is the
  initial byte of what is sanitized next. In particular 41 C3 28 becomes 41 EF BF BD 28.

  This holds at every place of every input, not only at its start: the output for the empty
  input is empty, and the output for \<open>t # p\<close> is given by what stands at its head. An ASCII
  byte is copied and \<open>p\<close> is sanitized next; an invalid initial byte or a sequence with too
  few acceptable continuation bytes is replaced and sanitizing resumes at the offending
  byte; a complete sequence is copied, or, when it is a high surrogate followed by a low
  surrogate, the pair is replaced by its 4-byte encoding, and what follows is sanitized
  next. The five cases exclude each other and cover every head, so they fix the output for
  every input.
\<close>

theorem sanitize_string_replaces_invalid:
  "(\<not> t \<le> 0x7f \<and> wtf8_invalid_lead t
      \<longrightarrow> fst (duk_unicode_wtf8_sanitize_string (t # rest))
          = [0xef, 0xbf, 0xbd] @ fst (duk_unicode_wtf8_sanitize_string rest))
   \<and> (\<not> t \<le> 0x7f \<and> \<not> wtf8_invalid_lead t \<and> length cs < wtf8_width t - 1
       \<and> wtf8_good_conts (wtf8_lower t) (wtf8_upper t) (length cs) cs = length cs
       \<and> (rest = [] \<or> \<not> (if cs = [] then wtf8_lower t \<le> hd rest \<and> hd rest \<le> wtf8_upper t
                             else 0x80 \<le> hd rest \<and> hd rest \<le> 0xbf))
      \<longrightarrow> fst (duk_unicode_wtf8_sanitize_string (t # cs @ rest))
          = [0xef, 0xbf, 0xbd] @ fst (duk_unicode_wtf8_sanitize_string rest))
   \<and> fst (duk_unicode_wtf8_sanitize_string [0x41, 0xc3, 0x28]) = [0x41, 0xef, 0xbf, 0xbd, 0x28]
   \<and> fst (duk_unicode_wtf8_sanitize_string []) = []
   \<and> (t \<le> 0x7f
      \<longrightarrow> fst (duk_unicode_wtf8_sanitize_string (t # p))
          = t # fst (duk_unicode_wtf8_sanitize_string p))
   \<and> (\<not> t \<le> 0x7f \<and> \<not> wtf8_invalid_lead t
       \<and> wtf8_good_conts (wtf8_lower t) (wtf8_upper t) (wtf8_width t - 1) p < wtf8_width t - 1
      \<longrightarrow> fst (duk_unicode_wtf8_sanitize_string (t # p))
          = [0xef, 0xbf, 0xbd]
            @ fst (duk_unicode_wtf8_sanitize_string
                (drop (wtf8_good_conts (wtf8_lower t) (wtf8_upper t) (wtf8_width t - 1) p) p)))
   \<and> (seq_at t p \<and> \<not> (high_surrogate_at (t # p) \<and> low_surrogate_at (drop 2 p))
      \<longrightarrow> fst (duk_unicode_wtf8_sanitize_string (t # p))
          = (t # take (wtf8_width t - 1) p)
            @ fst (duk_unicode_wtf8_sanitize_string (drop (wtf8_width t - 1) p)))
   \<and> (seq_at t p \<and> high_surrogate_at (t # p) \<and> low_surrogate_at (drop 2 p)
      \<longrightarrow> fst (duk_unicode_wtf8_sanitize_string (t # p))
          = utf8_enc4 (combine_surrogates (scalar_at (t # p)) (scalar_at (drop 2 p)))
            @ fst (duk_unicode_wtf8_sanitize_string (drop 5 p)))"
proof (intro conjI impI)
  assume a: "\<not> t \<le> 0x7f \<and> wtf8_invalid_lead t"
  then have "sanitize_iter t rest = (([0xef, 0xbf, 0xbd], 2), rest)"
    by (simp add: iter_invalid_lead)
  then show "fst (duk_unicode_wtf8_sanitize_string (t # rest))
      = [0xef, 0xbf, 0xbd] @ fst (duk_unicode_wtf8_sanitize_string rest)"
    by (rule sanitize_string_step)
next
  assume a: "\<not> t \<le> 0x7f \<and> \<not> wtf8_invalid_lead t \<and> length cs < wtf8_width t - 1
       \<and> wtf8_good_conts (wtf8_lower t) (wtf8_upper t) (length cs) cs = length cs
       \<and> (rest = [] \<or> \<not> (if cs = [] then wtf8_lower t \<le> hd rest \<and> hd rest \<le> wtf8_upper t
                             else 0x80 \<le> hd rest \<and> hd rest \<le> 0xbf))"
  then have g: "wtf8_good_conts (wtf8_lower t) (wtf8_upper t) (wtf8_width t - 1) (cs @ rest)
      = length cs"
    by (intro good_conts_stop) simp_all
  have "sanitize_iter t (cs @ rest) = (([0xef, 0xbf, 0xbd], 2), drop (length cs) (cs @ rest))"
    using a by (intro iter_invalid_conts [OF _ _ g]) simp_all
  then have "sanitize_iter t (cs @ rest) = (([0xef, 0xbf, 0xbd], 2), rest)"
    by simp
  then show "fst (duk_unicode_wtf8_sanitize_string (t # cs @ rest))
      = [0xef, 0xbf, 0xbd] @ fst (duk_unicode_wtf8_sanitize_string rest)"
    by (rule sanitize_string_step)
next
  show "fst (duk_unicode_wtf8_sanitize_string [0x41, 0xc3, 0x28]) = [0x41, 0xef, 0xbf, 0xbd, 0x28]"
    by (simp add: sanitize_eval)
next
  show "fst (duk_unicode_wtf8_sanitize_string []) = []"
    by (rule sanitize_string_Nil)
next
  assume "t \<le> 0x7f"
  then have "sanitize_iter t p = (([t], 0), p)" by (rule iter_ascii)
  from sanitize_string_step [OF this]
  show "fst (duk_unicode_wtf8_sanitize_string (t # p))
      = t # fst (duk_unicode_wtf8_sanitize_string p)"
    by simp
next
  assume a: "\<not> t \<le> 0x7f \<and> \<not> wtf8_invalid_lead t
       \<and> wtf8_good_conts (wtf8_lower t) (wtf8_upper t) (wtf8_width t - 1) p < wtf8_width t - 1"
  have "sanitize_iter t p = (([0xef, 0xbf, 0xbd], 2),
      drop (wtf8_good_conts (wtf8_lower t) (wtf8_upper t) (wtf8_width t - 1) p) p)"
    using a by (intro iter_invalid_conts [OF _ _ refl]) simp_all
  then show "fst (duk_unicode_wtf8_sanitize_string (t # p))
      = [0xef, 0xbf, 0xbd]
        @ fst (duk_unicode_wtf8_sanitize_string
            (drop (wtf8_good_conts (wtf8_lower t) (wtf8_upper t) (wtf8_width t - 1) p) p))"
    by (rule sanitize_string_step)
next
  assume a: "seq_at t p \<and> \<not> (high_surrogate_at (t # p) \<and> low_surrogate_at (drop 2 p))"
  have "sanitize_iter t p
    = ((t # take (wtf8_width t - 1) p, word_of_nat (wtf8_width t - 1)), drop (wtf8_width t - 1) p)"
    using a by (intro iter_scalar) simp_all
  then show "fst (duk_unicode_wtf8_sanitize_string (t # p))
      = (t # take (wtf8_width t - 1) p)
        @ fst (duk_unicode_wtf8_sanitize_string (drop (wtf8_width t - 1) p))"
    by (rule sanitize_string_step)
next
  assume a: "seq_at t p \<and> high_surrogate_at (t # p) \<and> low_surrogate_at (drop 2 p)"
  have "sanitize_iter t p
    = ((utf8_enc4 (combine_surrogates (scalar_at (t # p)) (scalar_at (drop 2 p))), 3), drop 5 p)"
    using a by (intro iter_surrogate_pair) simp_all
  then show "fst (duk_unicode_wtf8_sanitize_string (t # p))
      = utf8_enc4 (combine_surrogates (scalar_at (t # p)) (scalar_at (drop 2 p)))
        @ fst (duk_unicode_wtf8_sanitize_string (drop 5 p))"
    by (rule sanitize_string_step)
qed

theorem sanitize_string_replaces_invalid_witness:
  "\<not> (0xc3::u8) \<le> 0x7f \<and> \<not> wtf8_invalid_lead 0xc3 \<and> length ([] :: u8 list) < wtf8_width 0xc3 - 1
   \<and> \<not> (wtf8_lower 0xc3 \<le> (0x28::u8) \<and> (0x28::u8) \<le> wtf8_upper 0xc3)
   \<and> fst (duk_unicode_wtf8_sanitize_string [0xc3, 0x28]) = [0xef, 0xbf, 0xbd, 0x28]
   \<and> \<not> (0xe2::u8) \<le> 0x7f \<and> \<not> wtf8_invalid_lead 0xe2 \<and> length [0x82 :: u8] < wtf8_width 0xe2 - 1
   \<and> wtf8_good_conts (wtf8_lower 0xe2) (wtf8_upper 0xe2) (length [0x82 :: u8]) [0x82] = length [0x82 :: u8]
   \<and> fst (duk_unicode_wtf8_sanitize_string [0xe2, 0x82]) = [0xef, 0xbf, 0xbd]
   \<and> wtf8_invalid_lead 0xc0
   \<and> fst (duk_unicode_wtf8_sanitize_string [0xc0, 0xaf]) = [0xef, 0xbf, 0xbd, 0xef, 0xbf, 0xbd]
   \<and> (0x41::u8) \<le> 0x7f \<and> \<not> (0x80::u8) \<le> 0x7f \<and> wtf8_invalid_lead 0x80
   \<and> fst (duk_unicode_wtf8_sanitize_string [0x41, 0x80]) = [0x41, 0xef, 0xbf, 0xbd]
   \<and> wtf8_good_conts (wtf8_lower 0xe2) (wtf8_upper 0xe2) (wtf8_width 0xe2 - 1) [0x82, 0x28] = 1
   \<and> fst (duk_unicode_wtf8_sanitize_string [0xe2, 0x82, 0x28]) = [0xef, 0xbf, 0xbd, 0x28]
   \<and> seq_at 0xc3 [0xa9]
   \<and> \<not> (high_surrogate_at [0xc3, 0xa9] \<and> low_surrogate_at (drop 2 [0xa9]))
   \<and> fst (duk_unicode_wtf8_sanitize_string [0xc3, 0xa9]) = [0xc3, 0xa9]
   \<and> seq_at 0xed [0xa0, 0xbd, 0xed, 0xb8, 0x80]
   \<and> high_surrogate_at [0xed, 0xa0, 0xbd, 0xed, 0xb8, 0x80]
   \<and> low_surrogate_at (drop 2 [0xa0, 0xbd, 0xed, 0xb8, 0x80])
   \<and> fst (duk_unicode_wtf8_sanitize_string [0xed, 0xa0, 0xbd, 0xed, 0xb8, 0x80])
       = [0xf0, 0x9f, 0x98, 0x80]"
proof -
  have w: "wtf8_width 0xc3 - 1 = Suc 0" "wtf8_width 0xed - 1 = Suc (Suc 0)"
    "wtf8_width 0xe2 - 1 = Suc (Suc 0)"
    by (simp_all add: wtf8_width_def)
  have h1: "\<not> (0xc3::u8) \<le> 0x7f" "\<not> wtf8_invalid_lead 0xc3"
    "length ([] :: u8 list) < wtf8_width 0xc3 - 1"
    "\<not> (wtf8_lower 0xc3 \<le> (0x28::u8) \<and> (0x28::u8) \<le> wtf8_upper 0xc3)"
    by (simp_all add: wtf8_eval)
  have h2: "\<not> (0xe2::u8) \<le> 0x7f" "\<not> wtf8_invalid_lead 0xe2"
    "length [0x82 :: u8] < wtf8_width 0xe2 - 1"
    "wtf8_good_conts (wtf8_lower 0xe2) (wtf8_upper 0xe2) (length [0x82 :: u8]) [0x82]
       = length [0x82 :: u8]"
    by (simp_all add: wtf8_eval)
  have h3: "\<not> (0xc0::u8) \<le> 0x7f" "wtf8_invalid_lead 0xc0"
    by (simp_all add: wtf8_eval)
  have h4: "(0x41::u8) \<le> 0x7f" "(0x28::u8) \<le> 0x7f" by simp_all
  have h5: "\<not> (0x80::u8) \<le> 0x7f" "wtf8_invalid_lead 0x80"
    "\<not> (0xaf::u8) \<le> 0x7f" "wtf8_invalid_lead 0xaf"
    by (simp_all add: wtf8_eval)
  have h6: "wtf8_good_conts (wtf8_lower 0xe2) (wtf8_upper 0xe2) (wtf8_width 0xe2 - 1) [0x82, 0x28]
      = 1"
    unfolding w by (simp add: wtf8_eval)
  have ws: "wtf8_width 0xc3 - Suc 0 = Suc 0" "wtf8_width 0xed - Suc 0 = Suc (Suc 0)"
    "wtf8_width 0xe2 - Suc 0 = Suc (Suc 0)"
    by (simp_all add: wtf8_width_def)
  have h6': "wtf8_good_conts (wtf8_lower 0xe2) (wtf8_upper 0xe2) (wtf8_width 0xe2 - Suc 0)
      [0x82, 0x28] = Suc 0"
    using h6 by simp
  have h7: "seq_at 0xc3 [0xa9]"
    unfolding seq_at_def w by (simp add: wtf8_eval)
  have h8: "\<not> (high_surrogate_at [0xc3, 0xa9] \<and> low_surrogate_at (drop 2 [0xa9]))"
    by (simp add: wtf8_eval)
  have h9: "seq_at 0xed [0xa0, 0xbd, 0xed, 0xb8, 0x80]"
    unfolding seq_at_def w by (simp add: wtf8_eval)
  have h10: "high_surrogate_at [0xed, 0xa0, 0xbd, 0xed, 0xb8, 0x80]"
    "low_surrogate_at (drop 2 [0xa0, 0xbd, 0xed, 0xb8, 0x80])"
    by (simp_all add: wtf8_eval)
  have e: "utf8_enc4 (combine_surrogates (scalar_at [0xed, 0xa0, 0xbd, 0xed, 0xb8, 0x80])
       (scalar_at (drop 2 [0xa0, 0xbd, 0xed, 0xb8, 0x80]))) = [0xf0, 0x9f, 0x98, 0x80]"
    by (simp add: wtf8_eval)
  have n: "fst (duk_unicode_wtf8_sanitize_string []) = []"
    by (rule sanitize_string_replaces_invalid [where t = "0x41",
        THEN conjunct2, THEN conjunct2, THEN conjunct2, THEN conjunct1])
  have s28: "fst (duk_unicode_wtf8_sanitize_string [0x28]) = [0x28]"
    using sanitize_string_replaces_invalid [where t = "0x28" and p = "[]",
        THEN conjunct2, THEN conjunct2, THEN conjunct2, THEN conjunct2, THEN conjunct1] h4(2) n
    by simp
  have s80: "fst (duk_unicode_wtf8_sanitize_string [0x80]) = [0xef, 0xbf, 0xbd]"
    using sanitize_string_replaces_invalid [where t = "0x80" and rest = "[]",
        THEN conjunct1] h5(1,2) n by simp
  have saf: "fst (duk_unicode_wtf8_sanitize_string [0xaf]) = [0xef, 0xbf, 0xbd]"
    using sanitize_string_replaces_invalid [where t = "0xaf" and rest = "[]",
        THEN conjunct1] h5(3,4) n by simp
  have r1: "fst (duk_unicode_wtf8_sanitize_string [0xc3, 0x28]) = [0xef, 0xbf, 0xbd, 0x28]"
    using sanitize_string_replaces_invalid [where t = "0xc3" and cs = "[]" and rest = "[0x28]",
        THEN conjunct2, THEN conjunct1] h1 s28 by simp
  have r2: "fst (duk_unicode_wtf8_sanitize_string [0xe2, 0x82]) = [0xef, 0xbf, 0xbd]"
    using sanitize_string_replaces_invalid [where t = "0xe2" and cs = "[0x82]" and rest = "[]",
        THEN conjunct2, THEN conjunct1] h2 n by simp
  have r3: "fst (duk_unicode_wtf8_sanitize_string [0xc0, 0xaf])
      = [0xef, 0xbf, 0xbd, 0xef, 0xbf, 0xbd]"
    using sanitize_string_replaces_invalid [where t = "0xc0" and rest = "[0xaf]",
        THEN conjunct1] h3 saf by simp
  have r4: "fst (duk_unicode_wtf8_sanitize_string [0x41, 0x80]) = [0x41, 0xef, 0xbf, 0xbd]"
    using sanitize_string_replaces_invalid [where t = "0x41" and p = "[0x80]",
        THEN conjunct2, THEN conjunct2, THEN conjunct2, THEN conjunct2, THEN conjunct1] h4(1) s80
    by simp
  have lt: "wtf8_good_conts (wtf8_lower 0xe2) (wtf8_upper 0xe2) (wtf8_width 0xe2 - 1) [0x82, 0x28]
      < wtf8_width 0xe2 - 1"
    unfolding h6 w by simp
  have "fst (duk_unicode_wtf8_sanitize_string [0xe2, 0x82, 0x28])
      = [0xef, 0xbf, 0xbd]
        @ fst (duk_unicode_wtf8_sanitize_string
            (drop (wtf8_good_conts (wtf8_lower 0xe2) (wtf8_upper 0xe2) (wtf8_width 0xe2 - 1)
               [0x82, 0x28]) [0x82, 0x28]))"
    by (rule sanitize_string_replaces_invalid [where t = "0xe2" and p = "[0x82, 0x28]",
        THEN conjunct2, THEN conjunct2, THEN conjunct2, THEN conjunct2, THEN conjunct2,
        THEN conjunct1, THEN mp])
      (intro conjI h2(1) h2(2) lt)
  then have r5: "fst (duk_unicode_wtf8_sanitize_string [0xe2, 0x82, 0x28])
      = [0xef, 0xbf, 0xbd, 0x28]"
    unfolding h6 by (simp add: s28)
  have r6: "fst (duk_unicode_wtf8_sanitize_string [0xc3, 0xa9]) = [0xc3, 0xa9]"
    using sanitize_string_replaces_invalid [where t = "0xc3" and p = "[0xa9]",
        THEN conjunct2, THEN conjunct2, THEN conjunct2, THEN conjunct2, THEN conjunct2,
        THEN conjunct2, THEN conjunct1] h7 h8 n by (simp add: ws)
  have "fst (duk_unicode_wtf8_sanitize_string [0xed, 0xa0, 0xbd, 0xed, 0xb8, 0x80])
      = utf8_enc4 (combine_surrogates (scalar_at [0xed, 0xa0, 0xbd, 0xed, 0xb8, 0x80])
            (scalar_at (drop 2 [0xa0, 0xbd, 0xed, 0xb8, 0x80])))
        @ fst (duk_unicode_wtf8_sanitize_string (drop 5 [0xa0, 0xbd, 0xed, 0xb8, 0x80]))"
    by (rule sanitize_string_replaces_invalid
        [where t = "0xed" and p = "[0xa0, 0xbd, 0xed, 0xb8, 0x80]",
        THEN conjunct2, THEN conjunct2, THEN conjunct2, THEN conjunct2, THEN conjunct2,
        THEN conjunct2, THEN conjunct2, THEN mp])
      (intro conjI h9 h10)
  then have r7: "fst (duk_unicode_wtf8_sanitize_string [0xed, 0xa0, 0xbd, 0xed, 0xb8, 0x80])
      = [0xf0, 0x9f, 0x98, 0x80]"
    unfolding e by (simp add: n)
  show ?thesis
    using h1 h2 h3(2) h4(1) h5(1,2) h6 h7 h8 h9 h10 r1 r2 r3 r4 r5 r6 r7
    by (intro conjI)
qed

section \<open>The output character length\<close>

text \<open>
  Claim C4, as amended. \<open>duk_unicode_wtf8_sanitize_string\<close> returns the output byte
  length \<open>out_blen\<close> only. The output character length \<open>out_clen\<close> is computed before the
  return and dropped; its value is \<open>out_blen\<close> minus the extra bytes of the codepoints put
  out, where a 2-byte sequence has one extra byte, a 3-byte sequence (U+FFFD included) two
  and a 4-byte sequence three. The subtraction is on 32-bit values; the extra bytes never
  exceed the output length.
\<close>

theorem sanitize_string_out_clen:
  "sanitize_out_clen b
     = snd (duk_unicode_wtf8_sanitize_string b)
       - word_of_nat (extra_bytes (fst (duk_unicode_wtf8_sanitize_string b)))
   \<and> snd (duk_unicode_wtf8_sanitize_string b)
     = word_of_nat (length (fst (duk_unicode_wtf8_sanitize_string b)))
   \<and> extra_bytes (fst (duk_unicode_wtf8_sanitize_string b))
     \<le> length (fst (duk_unicode_wtf8_sanitize_string b))"
  using extra_bytes_le [OF sanitize_valid [of b]]
  by (simp add: sanitize_string_bytes sanitize_out_clen_bytes sanitize_sub_extra)

text \<open>
  Claim C4 as stated fails: the value returned with the output bytes is the byte length,
  not the character length. For the input C3 A9 the function returns 2, while the output
  byte length minus the extra bytes is 1.
\<close>

theorem sanitize_string_returns_clen_counterexample:
  "duk_unicode_wtf8_sanitize_string [0xc3, 0xa9] = ([0xc3, 0xa9], 2)
   \<and> (word_of_nat (length [0xc3, 0xa9 :: u8]) - word_of_nat (extra_bytes [0xc3, 0xa9]) :: u32) = 1
   \<and> sanitize_out_clen [0xc3, 0xa9] = 1
   \<and> snd (duk_unicode_wtf8_sanitize_string [0xc3, 0xa9]) \<noteq> sanitize_out_clen [0xc3, 0xa9]"
  by (simp add: sanitize_eval wtf8_eval)


section \<open>Character length\<close>

text \<open>
  Claim C6. On valid WTF-8 \<open>duk_unicode_wtf8_charlength\<close> returns the count obtained
  by going from initial byte to initial byte: up to 0x7F one character and one byte,
  0xC2-0xDF one character and two bytes, 0xE0-0xEF one character and three bytes,
  0xF0-0xF4 two characters and four bytes. For every input the character length of the
  sanitizer's output is the sum over its decoded scalars of 1 for a scalar below 0x10000
  and 2 for a supplementary scalar.
\<close>

theorem charlength_counts_characters:
  "(duk_unicode_is_valid_wtf8 b \<longrightarrow> duk_unicode_wtf8_charlength b = Some (char_count b))
   \<and> duk_unicode_wtf8_charlength (fst (duk_unicode_wtf8_sanitize_string b))
     = Some (sum_list (map (\<lambda>cp. if cp < 0x10000 then 1 else 2)
               (scalars (fst (duk_unicode_wtf8_sanitize_string b)))))"
proof -
  have v: "duk_unicode_is_valid_wtf8 (sanitize_bytes b)" by (rule sanitize_valid)
  have "duk_unicode_wtf8_charlength (sanitize_bytes b)
      = Some (sum_list (map (\<lambda>cp. if cp < 0x10000 then 1 else 2) (scalars (sanitize_bytes b))))"
    using charlength_valid [OF v] char_count_scalars [OF v] by simp
  then show ?thesis
    using charlength_valid [of b] by (simp add: sanitize_string_bytes)
qed

theorem charlength_counts_characters_witness:
  "duk_unicode_is_valid_wtf8 [0x41, 0xc3, 0xa9, 0x20, 0xf0, 0x9f, 0x98, 0x80]
   \<and> duk_unicode_wtf8_charlength [0x41, 0xc3, 0xa9, 0x20, 0xf0, 0x9f, 0x98, 0x80] = Some 5"
proof -
  have v: "duk_unicode_is_valid_wtf8 [0x41, 0xc3, 0xa9, 0x20, 0xf0, 0x9f, 0x98, 0x80]"
    by simp
  have c: "char_count [0x41, 0xc3, 0xa9, 0x20, 0xf0, 0x9f, 0x98, 0x80] = 5"
    by simp
  show ?thesis
    using charlength_counts_characters [of "[0x41, 0xc3, 0xa9, 0x20, 0xf0, 0x9f, 0x98, 0x80]"] v
    by (simp only: c)
qed


section \<open>Read-only handles\<close>

text \<open>
  Claim C10. With ROM strings, \<open>duk_hstring_get_charlen\<close> on a READ_ONLY handle returns the
  character length of the string and writes no field: the handle after the call is the
  handle before it. With a stored \<open>clen\<close> the call returns the stored value, also when it
  is the sentinel 0; the \<open>clen\<close> of a ROM string is precomputed, so the stored value is the
  character length. Without a stored \<open>clen\<close> the ASCII flag of a ROM string is preset, so a
  set flag means that the character length is the byte length; the call returns the byte
  length when the flag is set, 0 for a symbol, and otherwise the computed character length
  of the valid WTF-8 bytes. In no case is the handle changed.
\<close>

theorem readonly_get_charlen_returns_charlen:
  assumes "h_readonly h"
  shows "duk_hstring_get_charlen_lazy_clen True h = Some (unat (h_clen h), h)
     \<and> (unat (h_clen h) = hstring_charlen h
        \<longrightarrow> duk_hstring_get_charlen_lazy_clen True h = Some (hstring_charlen h, h))
     \<and> ((\<not> h_symbol h \<longrightarrow> duk_unicode_is_valid_wtf8 (h_data h))
         \<and> (h_ascii h \<longrightarrow> hstring_charlen h = length (h_data h))
        \<longrightarrow> duk_hstring_get_charlen_lazy_noclen True h = Some (hstring_charlen h, h))
     \<and> (case duk_hstring_get_charlen_lazy_noclen True h of
          None \<Rightarrow> True
        | Some (n, h') \<Rightarrow> h' = h)"
proof (intro conjI impI)
  show 1: "duk_hstring_get_charlen_lazy_clen True h = Some (unat (h_clen h), h)"
    using assms by (simp add: duk_hstring_get_charlen_lazy_clen_def
          duk__hstring_get_charlen_slowpath_clen_def)
  show "duk_hstring_get_charlen_lazy_clen True h = Some (hstring_charlen h, h)"
    if "unat (h_clen h) = hstring_charlen h"
    using 1 that by simp
  show "duk_hstring_get_charlen_lazy_noclen True h = Some (hstring_charlen h, h)"
    if a: "(\<not> h_symbol h \<longrightarrow> duk_unicode_is_valid_wtf8 (h_data h))
         \<and> (h_ascii h \<longrightarrow> hstring_charlen h = length (h_data h))"
  proof (cases "h_ascii h")
    case True
    then show ?thesis
      using a by (simp add: duk_hstring_get_charlen_lazy_noclen_def
          duk__hstring_get_charlen_slowpath_noclen_def duk_hstring_get_bytelen_def)
  next
    case na: False
    show ?thesis
    proof (cases "h_symbol h")
      case True
      then show ?thesis
        using na by (simp add: duk_hstring_get_charlen_lazy_noclen_def
            duk__hstring_get_charlen_slowpath_noclen_def hstring_charlen_def)
    next
      case False
      then have "duk_unicode_wtf8_charlength (h_data h) = Some (char_count (h_data h))"
        using a by (intro charlength_valid) simp
      then show ?thesis
        using na False assms by (simp add: duk_hstring_get_charlen_lazy_noclen_def
            duk__hstring_get_charlen_slowpath_noclen_def hstring_charlen_def
            duk_hstring_get_data_def)
    qed
  qed
  show "case duk_hstring_get_charlen_lazy_noclen True h of
          None \<Rightarrow> True
        | Some (n, h') \<Rightarrow> h' = h"
    using assms by (simp add: duk_hstring_get_charlen_lazy_noclen_def
          duk__hstring_get_charlen_slowpath_noclen_def split: option.splits)
qed

theorem readonly_get_charlen_returns_charlen_witness:
  "h_readonly
      \<lparr>h_data = [], h_clen = 0, h_ascii = True, h_symbol = False, h_readonly = True\<rparr>
    \<and> unat (h_clen
      \<lparr>h_data = [], h_clen = 0, h_ascii = True, h_symbol = False, h_readonly = True\<rparr>)
    = hstring_charlen
      \<lparr>h_data = [], h_clen = 0, h_ascii = True, h_symbol = False, h_readonly = True\<rparr>
   \<and> duk_hstring_get_charlen_lazy_clen True
       \<lparr>h_data = [], h_clen = 0, h_ascii = True, h_symbol = False, h_readonly = True\<rparr>
     = Some (0,
       \<lparr>h_data = [], h_clen = 0, h_ascii = True, h_symbol = False, h_readonly = True\<rparr>)
   \<and> h_readonly
       \<lparr>h_data = [0x81, 0x61], h_clen = 0, h_ascii = False, h_symbol = True, h_readonly = True\<rparr>
     \<and> unat (h_clen
       \<lparr>h_data = [0x81, 0x61], h_clen = 0, h_ascii = False, h_symbol = True, h_readonly = True\<rparr>)
     = hstring_charlen
       \<lparr>h_data = [0x81, 0x61], h_clen = 0, h_ascii = False, h_symbol = True, h_readonly = True\<rparr>
   \<and> duk_hstring_get_charlen_lazy_clen True
       \<lparr>h_data = [0x81, 0x61], h_clen = 0, h_ascii = False, h_symbol = True, h_readonly = True\<rparr>
     = Some (0,
       \<lparr>h_data = [0x81, 0x61], h_clen = 0, h_ascii = False, h_symbol = True, h_readonly = True\<rparr>)
   \<and> h_readonly
       \<lparr>h_data = [0xc3, 0xa9], h_clen = 1, h_ascii = False, h_symbol = False, h_readonly = True\<rparr>
     \<and> unat (h_clen
       \<lparr>h_data = [0xc3, 0xa9], h_clen = 1, h_ascii = False, h_symbol = False, h_readonly = True\<rparr>)
     = hstring_charlen
       \<lparr>h_data = [0xc3, 0xa9], h_clen = 1, h_ascii = False, h_symbol = False, h_readonly = True\<rparr>
   \<and> duk_unicode_is_valid_wtf8 (h_data
       \<lparr>h_data = [0xc3, 0xa9], h_clen = 1, h_ascii = False, h_symbol = False, h_readonly = True\<rparr>)
     \<and> \<not> h_ascii
       \<lparr>h_data = [0xc3, 0xa9], h_clen = 1, h_ascii = False, h_symbol = False, h_readonly = True\<rparr>
   \<and> duk_hstring_get_charlen_lazy_clen True
       \<lparr>h_data = [0xc3, 0xa9], h_clen = 1, h_ascii = False, h_symbol = False, h_readonly = True\<rparr>
     = Some (1,
       \<lparr>h_data = [0xc3, 0xa9], h_clen = 1, h_ascii = False, h_symbol = False, h_readonly = True\<rparr>)
   \<and> duk_hstring_get_charlen_lazy_noclen True
       \<lparr>h_data = [0xc3, 0xa9], h_clen = 1, h_ascii = False, h_symbol = False, h_readonly = True\<rparr>
     = Some (1,
       \<lparr>h_data = [0xc3, 0xa9], h_clen = 1, h_ascii = False, h_symbol = False, h_readonly = True\<rparr>)
   \<and> h_readonly
       \<lparr>h_data = [0x61], h_clen = 1, h_ascii = True, h_symbol = False, h_readonly = True\<rparr>
     \<and> duk_unicode_is_valid_wtf8 (h_data
       \<lparr>h_data = [0x61], h_clen = 1, h_ascii = True, h_symbol = False, h_readonly = True\<rparr>)
   \<and> hstring_charlen
       \<lparr>h_data = [0x61], h_clen = 1, h_ascii = True, h_symbol = False, h_readonly = True\<rparr>
     = length (h_data
       \<lparr>h_data = [0x61], h_clen = 1, h_ascii = True, h_symbol = False, h_readonly = True\<rparr>)
   \<and> duk_hstring_get_charlen_lazy_noclen True
       \<lparr>h_data = [0x61], h_clen = 1, h_ascii = True, h_symbol = False, h_readonly = True\<rparr>
     = Some (1,
       \<lparr>h_data = [0x61], h_clen = 1, h_ascii = True, h_symbol = False, h_readonly = True\<rparr>)"
proof -
  have r: "h_readonly
      \<lparr>h_data = [], h_clen = 0, h_ascii = True, h_symbol = False, h_readonly = True\<rparr>"
    "h_readonly
      \<lparr>h_data = [0x81, 0x61], h_clen = 0, h_ascii = False, h_symbol = True, h_readonly = True\<rparr>"
    "h_readonly
      \<lparr>h_data = [0xc3, 0xa9], h_clen = 1, h_ascii = False, h_symbol = False, h_readonly = True\<rparr>"
    "h_readonly
      \<lparr>h_data = [0x61], h_clen = 1, h_ascii = True, h_symbol = False, h_readonly = True\<rparr>"
    by simp_all
  have c: "hstring_charlen
      \<lparr>h_data = [], h_clen = 0, h_ascii = True, h_symbol = False, h_readonly = True\<rparr>
    = 0" "hstring_charlen
      \<lparr>h_data = [0x81, 0x61], h_clen = 0, h_ascii = False, h_symbol = True, h_readonly = True\<rparr>
    = 0" "hstring_charlen
      \<lparr>h_data = [0xc3, 0xa9], h_clen = 1, h_ascii = False, h_symbol = False, h_readonly = True\<rparr>
    = 1"
    "hstring_charlen
        \<lparr>h_data = [0x61], h_clen = 1, h_ascii = True, h_symbol = False, h_readonly = True\<rparr>
      = 1"
    by (simp_all add: hstring_charlen_def)
  have p: "unat (h_clen
      \<lparr>h_data = [], h_clen = 0, h_ascii = True, h_symbol = False, h_readonly = True\<rparr>)
    = hstring_charlen
      \<lparr>h_data = [], h_clen = 0, h_ascii = True, h_symbol = False, h_readonly = True\<rparr>"
    "unat (h_clen
      \<lparr>h_data = [0x81, 0x61], h_clen = 0, h_ascii = False, h_symbol = True, h_readonly = True\<rparr>)
    = hstring_charlen
      \<lparr>h_data = [0x81, 0x61], h_clen = 0, h_ascii = False, h_symbol = True, h_readonly = True\<rparr>"
    "unat (h_clen
        \<lparr>h_data = [0xc3, 0xa9], h_clen = 1, h_ascii = False, h_symbol = False, h_readonly = True\<rparr>)
      = hstring_charlen
        \<lparr>h_data = [0xc3, 0xa9], h_clen = 1, h_ascii = False, h_symbol = False, h_readonly = True\<rparr>"
    by (simp_all add: hstring_charlen_def)
  have v: "duk_unicode_is_valid_wtf8 (h_data
      \<lparr>h_data = [0xc3, 0xa9], h_clen = 1, h_ascii = False, h_symbol = False, h_readonly = True\<rparr>)"
    "\<not> h_ascii
      \<lparr>h_data = [0xc3, 0xa9], h_clen = 1, h_ascii = False, h_symbol = False, h_readonly = True\<rparr>"
    "duk_unicode_is_valid_wtf8 (h_data
        \<lparr>h_data = [0x61], h_clen = 1, h_ascii = True, h_symbol = False, h_readonly = True\<rparr>)"
      "hstring_charlen
        \<lparr>h_data = [0x61], h_clen = 1, h_ascii = True, h_symbol = False, h_readonly = True\<rparr>
      = length (h_data
        \<lparr>h_data = [0x61], h_clen = 1, h_ascii = True, h_symbol = False, h_readonly = True\<rparr>)"
    by (simp_all add: hstring_charlen_def)
  have wx: "(\<not> h_symbol
      \<lparr>h_data = [0xc3, 0xa9], h_clen = 1, h_ascii = False, h_symbol = False, h_readonly = True\<rparr>
    \<longrightarrow> duk_unicode_is_valid_wtf8 (h_data
      \<lparr>h_data = [0xc3, 0xa9], h_clen = 1, h_ascii = False, h_symbol = False, h_readonly = True\<rparr>))
      \<and> (h_ascii
          \<lparr>h_data = [0xc3, 0xa9], h_clen = 1, h_ascii = False, h_symbol = False, h_readonly = True\<rparr>
        \<longrightarrow> hstring_charlen
          \<lparr>h_data = [0xc3, 0xa9], h_clen = 1, h_ascii = False, h_symbol = False, h_readonly = True\<rparr>
        = length (h_data
          \<lparr>h_data = [0xc3, 0xa9], h_clen = 1, h_ascii = False, h_symbol = False, h_readonly = True\<rparr>))"
    by simp
  have wa: "(\<not> h_symbol
      \<lparr>h_data = [0x61], h_clen = 1, h_ascii = True, h_symbol = False, h_readonly = True\<rparr>
    \<longrightarrow> duk_unicode_is_valid_wtf8 (h_data
      \<lparr>h_data = [0x61], h_clen = 1, h_ascii = True, h_symbol = False, h_readonly = True\<rparr>))
      \<and> (h_ascii
          \<lparr>h_data = [0x61], h_clen = 1, h_ascii = True, h_symbol = False, h_readonly = True\<rparr>
        \<longrightarrow> hstring_charlen
          \<lparr>h_data = [0x61], h_clen = 1, h_ascii = True, h_symbol = False, h_readonly = True\<rparr>
        = length (h_data
          \<lparr>h_data = [0x61], h_clen = 1, h_ascii = True, h_symbol = False, h_readonly = True\<rparr>))"
    by (simp add: hstring_charlen_def)
  have 1: "duk_hstring_get_charlen_lazy_clen True
      \<lparr>h_data = [], h_clen = 0, h_ascii = True, h_symbol = False, h_readonly = True\<rparr>
    = Some (0,
      \<lparr>h_data = [], h_clen = 0, h_ascii = True, h_symbol = False, h_readonly = True\<rparr>)"
    using readonly_get_charlen_returns_charlen [OF r(1), THEN conjunct2, THEN conjunct1, THEN mp,
        OF p(1)]
    by (simp only: c)
  have 2: "duk_hstring_get_charlen_lazy_clen True
      \<lparr>h_data = [0x81, 0x61], h_clen = 0, h_ascii = False, h_symbol = True, h_readonly = True\<rparr>
    = Some (0,
      \<lparr>h_data = [0x81, 0x61], h_clen = 0, h_ascii = False, h_symbol = True, h_readonly = True\<rparr>)"
    using readonly_get_charlen_returns_charlen [OF r(2), THEN conjunct2, THEN conjunct1, THEN mp,
        OF p(2)]
    by (simp only: c)
  have 3: "duk_hstring_get_charlen_lazy_clen True
      \<lparr>h_data = [0xc3, 0xa9], h_clen = 1, h_ascii = False, h_symbol = False, h_readonly = True\<rparr>
    = Some (1,
      \<lparr>h_data = [0xc3, 0xa9], h_clen = 1, h_ascii = False, h_symbol = False, h_readonly = True\<rparr>)"
    using readonly_get_charlen_returns_charlen [OF r(3), THEN conjunct2, THEN conjunct1, THEN mp,
        OF p(3)]
    by (simp only: c)
  have 4: "duk_hstring_get_charlen_lazy_noclen True
      \<lparr>h_data = [0xc3, 0xa9], h_clen = 1, h_ascii = False, h_symbol = False, h_readonly = True\<rparr>
    = Some (1,
      \<lparr>h_data = [0xc3, 0xa9], h_clen = 1, h_ascii = False, h_symbol = False, h_readonly = True\<rparr>)"
    using readonly_get_charlen_returns_charlen [OF r(3), THEN conjunct2, THEN conjunct2,
        THEN conjunct1, THEN mp, OF wx]
    by (simp only: c)
  have 5: "duk_hstring_get_charlen_lazy_noclen True
      \<lparr>h_data = [0x61], h_clen = 1, h_ascii = True, h_symbol = False, h_readonly = True\<rparr>
    = Some (1,
      \<lparr>h_data = [0x61], h_clen = 1, h_ascii = True, h_symbol = False, h_readonly = True\<rparr>)"
    using readonly_get_charlen_returns_charlen [OF r(4), THEN conjunct2, THEN conjunct2,
        THEN conjunct1, THEN mp, OF wa]
    by (simp only: c)
  show ?thesis
    using r p v 1 2 3 4 5 by (intro conjI)
qed


section \<open>Substring\<close>

text \<open>
  Claim C5. For a handle with valid WTF-8 bytes and character offsets
  \<open>start < end \<le> charlength\<close>, the bytes handed to the interner are exactly a prefix, the
  copy of the input bytes in \<open>[copy_start, end_byte)\<close>, and a suffix. When the scan to
  \<open>start\<close> answers a character offset other than \<open>start\<close>, the start splits a supplementary
  codepoint \<open>cp\<close>, a 4-byte sequence at \<open>start_byte\<close>; the prefix is the 3-byte form (initial
  byte 0xED) of the low surrogate \<open>0xDC00 + ((cp - 0x10000) & 0x3FF)\<close> and \<open>copy_start\<close> is
  \<open>start_byte + 4\<close>; otherwise the prefix is empty and \<open>copy_start\<close> is \<open>start_byte\<close>. When the
  scan to \<open>end\<close> answers a character offset other than \<open>end\<close>, the end splits a
  supplementary codepoint \<open>cp'\<close> at \<open>end_byte\<close>; the suffix is the 3-byte form of the high
  surrogate \<open>0xD800 + ((cp' - 0x10000) >> 10)\<close>; otherwise the suffix is empty. In both cases
  the copy ends at \<open>end_byte\<close>. The result is the handle the interner returns for these
  bytes; it begins with the manufactured low surrogate and ends with the manufactured high
  surrogate.
\<close>

theorem substring_manufactures_surrogates:
  assumes "hstring_ok h" "start < end" "end \<le> duk_hstring_get_charlen h"
    "duk_strcache_scan_char2byte_wtf8 h start = (start_byte, start_char)"
    "duk_strcache_scan_char2byte_wtf8 h end = (end_byte, end_char)"
  shows "\<exists>r buf copy_start.
      copy_start = (if start_char \<noteq> start then start_byte + 4 else start_byte)
    \<and> copy_start \<le> end_byte \<and> end_byte \<le> length (h_data h)
    \<and> buf =
        (if start_char \<noteq> start
         then surrogate_enc3 (0xdc00 + (scalar_at (drop start_byte (h_data h)) - 0x10000) mod 1024)
         else [])
        @ take (end_byte - copy_start) (drop copy_start (h_data h))
        @ (if end_char \<noteq> end
           then surrogate_enc3 (0xd800 + (scalar_at (drop end_byte (h_data h)) - 0x10000) div 1024)
           else [])
    \<and> substring_bytes h start end = Some buf
    \<and> duk_push_wtf8_substring_hstring h start end = Some r
    \<and> duk_push_lstring buf = Some r
    \<and> h_data r = fst (duk_unicode_wtf8_sanitize_detect buf)
    \<and> (start_char \<noteq> start \<longrightarrow>
          (\<exists>t c1 c2 c3 q. drop start_byte (h_data h) = t # c1 # c2 # c3 # q \<and> wtf8_width t = 4
             \<and> seq_at t (c1 # c2 # c3 # q)
             \<and> scalar_at (drop start_byte (h_data h))
               = (unat t - 240) * 262144 + (unat c1 - 128) * 4096 + (unat c2 - 128) * 64
                 + (unat c3 - 128))
          \<and> 0x10000 \<le> scalar_at (drop start_byte (h_data h))
          \<and> scalar_at (drop start_byte (h_data h)) \<le> 0x10ffff
          \<and> take 3 (h_data r)
            = surrogate_enc3 (0xdc00 + (scalar_at (drop start_byte (h_data h)) - 0x10000) mod 1024))
    \<and> (end_char \<noteq> end \<longrightarrow>
          (\<exists>t c1 c2 c3 q. drop end_byte (h_data h) = t # c1 # c2 # c3 # q \<and> wtf8_width t = 4
             \<and> seq_at t (c1 # c2 # c3 # q)
             \<and> scalar_at (drop end_byte (h_data h))
               = (unat t - 240) * 262144 + (unat c1 - 128) * 4096 + (unat c2 - 128) * 64
                 + (unat c3 - 128))
          \<and> 0x10000 \<le> scalar_at (drop end_byte (h_data h))
          \<and> scalar_at (drop end_byte (h_data h)) \<le> 0x10ffff
          \<and> drop (length (h_data r) - 3) (h_data r)
            = surrogate_enc3 (0xd800 + (scalar_at (drop end_byte (h_data h)) - 0x10000) div 1024))"
proof -
  have v: "duk_unicode_is_valid_wtf8 (h_data h)"
    and cl: "duk_hstring_get_charlen h = char_count (h_data h)"
    using assms(1) by (simp_all add: hstring_ok_def)
  have e: "end \<le> char_count (h_data h)" and st: "start \<le> char_count (h_data h)"
    using assms(2,3) cl by simp_all
  have s1: "scan_char2byte (h_data h) start = (start_byte, start_char)"
    using assms(4) by (simp add: duk_strcache_scan_char2byte_wtf8_def duk_hstring_get_data_def)
  have s2: "scan_char2byte (h_data h) end = (end_byte, end_char)"
    using assms(5) by (simp add: duk_strcache_scan_char2byte_wtf8_def duk_hstring_get_data_def)
  define lo where "lo = 56320 + (scalar_at (drop start_byte (h_data h)) - 65536) mod 1024"
  define hi where "hi = 55296 + (scalar_at (drop end_byte (h_data h)) - 65536) div 1024"
  define cs where "cs = (if start_char \<noteq> start then start_byte + 4 else start_byte)"
  define P where "P = (if start_char \<noteq> start then surrogate_enc3 lo else [])"
  define M where "M = take (end_byte - cs) (drop cs (h_data h))"
  define S where "S = (if end_char \<noteq> end then surrogate_enc3 hi else [])"
  have buf: "substring_bytes h start end = Some (P @ M @ S)"
    using substring_bytes_struct [OF assms] by (simp only: P_def M_def S_def lo_def hi_def cs_def)
  obtain r where r: "duk_push_lstring (P @ M @ S) = Some r"
    "h_data r = fst (duk_unicode_wtf8_sanitize_detect (P @ M @ S))"
    using push_lstring_some by blast
  have res: "duk_push_wtf8_substring_hstring h start end = Some r"
    by (simp add: duk_push_wtf8_substring_hstring_def buf r(1))
  have rng: "cs \<le> end_byte" "end_byte \<le> length (h_data h)"
  proof -
    show "cs \<le> end_byte"
      using scan_mono [OF v assms(2) e s1 s2] by (simp only: cs_def)
    show "end_byte \<le> length (h_data h)"
      using scan_props [OF v e s2] by blast
  qed
  have lor: "56320 \<le> lo" "lo \<le> 57343"
  proof -
    have "(scalar_at (drop start_byte (h_data h)) - 65536) mod 1024 < 1024" by simp
    then show "56320 \<le> lo" "lo \<le> 57343" by (simp_all add: lo_def)
  qed
  have a: "(\<exists>t c1 c2 c3 q. drop start_byte (h_data h) = t # c1 # c2 # c3 # q \<and> wtf8_width t = 4
             \<and> seq_at t (c1 # c2 # c3 # q)
             \<and> scalar_at (drop start_byte (h_data h))
               = (unat t - 240) * 262144 + (unat c1 - 128) * 4096 + (unat c2 - 128) * 64
                 + (unat c3 - 128))
          \<and> 0x10000 \<le> scalar_at (drop start_byte (h_data h))
          \<and> scalar_at (drop start_byte (h_data h)) \<le> 0x10ffff
          \<and> take 3 (h_data r) = surrogate_enc3 lo"
    if sp: "start_char \<noteq> start"
  proof -
    note 1 = scan_split_seq [OF v st s1 sp]
    have "h_data r = surrogate_enc3 lo @ sanitize_bytes (M @ S)"
      using r(2) sp sanitize_enc3_low [OF lor] by (simp add: P_def)
    then have 2: "take 3 (h_data r) = surrogate_enc3 lo"
      using enc3_low(4) [OF lor] by simp
    show ?thesis using 1 2 by (intro conjI)
  qed
  have b: "(\<exists>t c1 c2 c3 q. drop end_byte (h_data h) = t # c1 # c2 # c3 # q \<and> wtf8_width t = 4
             \<and> seq_at t (c1 # c2 # c3 # q)
             \<and> scalar_at (drop end_byte (h_data h))
               = (unat t - 240) * 262144 + (unat c1 - 128) * 4096 + (unat c2 - 128) * 64
                 + (unat c3 - 128))
          \<and> 0x10000 \<le> scalar_at (drop end_byte (h_data h))
          \<and> scalar_at (drop end_byte (h_data h)) \<le> 0x10ffff
          \<and> drop (length (h_data r) - 3) (h_data r) = surrogate_enc3 hi"
    if sp: "end_char \<noteq> end"
  proof -
    note 1 = scan_split_seq [OF v e s2 sp]
    obtain cp :: u32 where cp: "65536 \<le> unat cp" "unat cp < 1114112"
      "scalar_at (drop end_byte (h_data h)) = unat cp"
      using split_decode(1) [OF v e s2 sp] by blast
    have "(unat cp - 65536) div 1024 < 1024"
      using cp(2) by (intro less_mult_imp_div_less) simp
    then have hir: "55296 \<le> hi" "hi \<le> 56319" by (simp_all add: hi_def cp(3))
    obtain front where "fst (duk_unicode_wtf8_sanitize_detect ((P @ M) @ surrogate_enc3 hi))
        = front @ surrogate_enc3 hi"
      using sanitize_enc3_high [OF hir] by blast
    then have "h_data r = front @ surrogate_enc3 hi"
      using r(2) sp by (simp add: S_def)
    then have 2: "drop (length (h_data r) - 3) (h_data r) = surrogate_enc3 hi"
      using enc3_high(4) [OF hir] by simp
    show ?thesis using 1 2 by (intro conjI)
  qed
  have a': "start_char \<noteq> start \<longrightarrow>
          (\<exists>t c1 c2 c3 q. drop start_byte (h_data h) = t # c1 # c2 # c3 # q \<and> wtf8_width t = 4
             \<and> seq_at t (c1 # c2 # c3 # q)
             \<and> scalar_at (drop start_byte (h_data h))
               = (unat t - 240) * 262144 + (unat c1 - 128) * 4096 + (unat c2 - 128) * 64
                 + (unat c3 - 128))
          \<and> 0x10000 \<le> scalar_at (drop start_byte (h_data h))
          \<and> scalar_at (drop start_byte (h_data h)) \<le> 0x10ffff
          \<and> take 3 (h_data r) = surrogate_enc3 lo"
    by (rule impI) (rule a)
  have b': "end_char \<noteq> end \<longrightarrow>
          (\<exists>t c1 c2 c3 q. drop end_byte (h_data h) = t # c1 # c2 # c3 # q \<and> wtf8_width t = 4
             \<and> seq_at t (c1 # c2 # c3 # q)
             \<and> scalar_at (drop end_byte (h_data h))
               = (unat t - 240) * 262144 + (unat c1 - 128) * 4096 + (unat c2 - 128) * 64
                 + (unat c3 - 128))
          \<and> 0x10000 \<le> scalar_at (drop end_byte (h_data h))
          \<and> scalar_at (drop end_byte (h_data h)) \<le> 0x10ffff
          \<and> drop (length (h_data r) - 3) (h_data r) = surrogate_enc3 hi"
    by (rule impI) (rule b)
  have m: "P @ M @ S = P @ take (end_byte - cs) (drop cs (h_data h)) @ S"
    by (simp only: M_def)
  have "\<exists>r buf copy_start.
      copy_start = cs
    \<and> copy_start \<le> end_byte \<and> end_byte \<le> length (h_data h)
    \<and> buf = P @ take (end_byte - copy_start) (drop copy_start (h_data h)) @ S
    \<and> substring_bytes h start end = Some buf
    \<and> duk_push_wtf8_substring_hstring h start end = Some r
    \<and> duk_push_lstring buf = Some r
    \<and> h_data r = fst (duk_unicode_wtf8_sanitize_detect buf)
    \<and> (start_char \<noteq> start \<longrightarrow>
          (\<exists>t c1 c2 c3 q. drop start_byte (h_data h) = t # c1 # c2 # c3 # q \<and> wtf8_width t = 4
             \<and> seq_at t (c1 # c2 # c3 # q)
             \<and> scalar_at (drop start_byte (h_data h))
               = (unat t - 240) * 262144 + (unat c1 - 128) * 4096 + (unat c2 - 128) * 64
                 + (unat c3 - 128))
          \<and> 0x10000 \<le> scalar_at (drop start_byte (h_data h))
          \<and> scalar_at (drop start_byte (h_data h)) \<le> 0x10ffff
          \<and> take 3 (h_data r) = surrogate_enc3 lo)
    \<and> (end_char \<noteq> end \<longrightarrow>
          (\<exists>t c1 c2 c3 q. drop end_byte (h_data h) = t # c1 # c2 # c3 # q \<and> wtf8_width t = 4
             \<and> seq_at t (c1 # c2 # c3 # q)
             \<and> scalar_at (drop end_byte (h_data h))
               = (unat t - 240) * 262144 + (unat c1 - 128) * 4096 + (unat c2 - 128) * 64
                 + (unat c3 - 128))
          \<and> 0x10000 \<le> scalar_at (drop end_byte (h_data h))
          \<and> scalar_at (drop end_byte (h_data h)) \<le> 0x10ffff
          \<and> drop (length (h_data r) - 3) (h_data r) = surrogate_enc3 hi)"
    using refl [of cs] rng m buf res r a' b'
    by (intro exI [of _ r] exI [of _ "P @ M @ S"] exI [of _ cs] conjI)
  then show ?thesis
    unfolding cs_def P_def S_def lo_def hi_def .
qed

theorem substring_manufactures_surrogates_witness:
  "hstring_ok
      \<lparr>h_data = [0xf0, 0x9f, 0x98, 0x80], h_clen = 2, h_ascii = False, h_symbol = False, h_readonly = False\<rparr>
    \<and> hstring_ok
      \<lparr>h_data = [0x61, 0xf0, 0x9f, 0x98, 0x80], h_clen = 3, h_ascii = False, h_symbol = False, h_readonly = False\<rparr>
   \<and> duk_strcache_scan_char2byte_wtf8
       \<lparr>h_data = [0xf0, 0x9f, 0x98, 0x80], h_clen = 2, h_ascii = False, h_symbol = False, h_readonly = False\<rparr>
     0 = (0, 0)
   \<and> duk_strcache_scan_char2byte_wtf8
       \<lparr>h_data = [0xf0, 0x9f, 0x98, 0x80], h_clen = 2, h_ascii = False, h_symbol = False, h_readonly = False\<rparr>
     1 = (0, 0)
   \<and> duk_strcache_scan_char2byte_wtf8
       \<lparr>h_data = [0xf0, 0x9f, 0x98, 0x80], h_clen = 2, h_ascii = False, h_symbol = False, h_readonly = False\<rparr>
     2 = (4, 2)
   \<and> duk_strcache_scan_char2byte_wtf8
       \<lparr>h_data = [0x61, 0xf0, 0x9f, 0x98, 0x80], h_clen = 3, h_ascii = False, h_symbol = False, h_readonly = False\<rparr>
     0 = (0, 0)
   \<and> duk_strcache_scan_char2byte_wtf8
       \<lparr>h_data = [0x61, 0xf0, 0x9f, 0x98, 0x80], h_clen = 3, h_ascii = False, h_symbol = False, h_readonly = False\<rparr>
     2 = (1, 1)
   \<and> (substring_bytes
       \<lparr>h_data = [0xf0, 0x9f, 0x98, 0x80], h_clen = 2, h_ascii = False, h_symbol = False, h_readonly = False\<rparr>
     1 2 = Some [0xed, 0xb8, 0x80]
      \<and> (\<exists>r. duk_push_wtf8_substring_hstring
          \<lparr>h_data = [0xf0, 0x9f, 0x98, 0x80], h_clen = 2, h_ascii = False, h_symbol = False, h_readonly = False\<rparr>
        1 2 = Some r \<and> h_data r = [0xed, 0xb8, 0x80]))
   \<and> (substring_bytes
       \<lparr>h_data = [0xf0, 0x9f, 0x98, 0x80], h_clen = 2, h_ascii = False, h_symbol = False, h_readonly = False\<rparr>
     0 1 = Some [0xed, 0xa0, 0xbd]
      \<and> (\<exists>r. duk_push_wtf8_substring_hstring
          \<lparr>h_data = [0xf0, 0x9f, 0x98, 0x80], h_clen = 2, h_ascii = False, h_symbol = False, h_readonly = False\<rparr>
        0 1 = Some r \<and> h_data r = [0xed, 0xa0, 0xbd]))
   \<and> (substring_bytes
       \<lparr>h_data = [0x61, 0xf0, 0x9f, 0x98, 0x80], h_clen = 3, h_ascii = False, h_symbol = False, h_readonly = False\<rparr>
     0 2 = Some [0x61, 0xed, 0xa0, 0xbd]
      \<and> (\<exists>r. duk_push_wtf8_substring_hstring
          \<lparr>h_data = [0x61, 0xf0, 0x9f, 0x98, 0x80], h_clen = 3, h_ascii = False, h_symbol = False, h_readonly = False\<rparr>
        0 2 = Some r
            \<and> h_data r = [0x61, 0xed, 0xa0, 0xbd]))"
proof -
  have ok: "hstring_ok
      \<lparr>h_data = [0xf0, 0x9f, 0x98, 0x80], h_clen = 2, h_ascii = False, h_symbol = False, h_readonly = False\<rparr>"
    "hstring_ok
      \<lparr>h_data = [0x61, 0xf0, 0x9f, 0x98, 0x80], h_clen = 3, h_ascii = False, h_symbol = False, h_readonly = False\<rparr>"
    by (simp_all add: hstring_ok_def duk_hstring_get_charlen_def)
  have sc: "duk_strcache_scan_char2byte_wtf8
      \<lparr>h_data = [0xf0, 0x9f, 0x98, 0x80], h_clen = 2, h_ascii = False, h_symbol = False, h_readonly = False\<rparr>
    0 = (0, 0)"
    "duk_strcache_scan_char2byte_wtf8
        \<lparr>h_data = [0xf0, 0x9f, 0x98, 0x80], h_clen = 2, h_ascii = False, h_symbol = False, h_readonly = False\<rparr>
      1 = (0, 0)"
    "duk_strcache_scan_char2byte_wtf8
        \<lparr>h_data = [0xf0, 0x9f, 0x98, 0x80], h_clen = 2, h_ascii = False, h_symbol = False, h_readonly = False\<rparr>
      2 = (4, 2)"
    "duk_strcache_scan_char2byte_wtf8
        \<lparr>h_data = [0x61, 0xf0, 0x9f, 0x98, 0x80], h_clen = 3, h_ascii = False, h_symbol = False, h_readonly = False\<rparr>
      0 = (0, 0)"
    "duk_strcache_scan_char2byte_wtf8
        \<lparr>h_data = [0x61, 0xf0, 0x9f, 0x98, 0x80], h_clen = 3, h_ascii = False, h_symbol = False, h_readonly = False\<rparr>
      2 = (1, 1)"
    by (simp_all add: duk_strcache_scan_char2byte_wtf8_def duk_hstring_get_data_def)
  have le: "2 \<le> duk_hstring_get_charlen
      \<lparr>h_data = [0xf0, 0x9f, 0x98, 0x80], h_clen = 2, h_ascii = False, h_symbol = False, h_readonly = False\<rparr>"
    "1 \<le> duk_hstring_get_charlen
      \<lparr>h_data = [0xf0, 0x9f, 0x98, 0x80], h_clen = 2, h_ascii = False, h_symbol = False, h_readonly = False\<rparr>"
    "2 \<le> duk_hstring_get_charlen
        \<lparr>h_data = [0x61, 0xf0, 0x9f, 0x98, 0x80], h_clen = 3, h_ascii = False, h_symbol = False, h_readonly = False\<rparr>"
    by (simp_all add: duk_hstring_get_charlen_def)
  have lt: "(1::nat) < 2" "(0::nat) < 1" "(0::nat) < 2" by simp_all
  obtain r1 buf1 cs1 where x1:
    "cs1 = (if (0::nat) \<noteq> 1 then 0 + 4 else 0)"
    "buf1 =
        (if (0::nat) \<noteq> 1
         then surrogate_enc3 (0xdc00 + (scalar_at (drop 0 (h_data
             \<lparr>h_data = [0xf0, 0x9f, 0x98, 0x80], h_clen = 2, h_ascii = False, h_symbol = False, h_readonly = False\<rparr>))
           - 0x10000) mod 1024)
         else [])
        @ take (4 - cs1) (drop cs1 (h_data
            \<lparr>h_data = [0xf0, 0x9f, 0x98, 0x80], h_clen = 2, h_ascii = False, h_symbol = False, h_readonly = False\<rparr>))
        @ (if (2::nat) \<noteq> 2
           then surrogate_enc3 (0xd800 + (scalar_at (drop 4 (h_data
               \<lparr>h_data = [0xf0, 0x9f, 0x98, 0x80], h_clen = 2, h_ascii = False, h_symbol = False, h_readonly = False\<rparr>))
             - 0x10000) div 1024)
           else [])"
    "substring_bytes
        \<lparr>h_data = [0xf0, 0x9f, 0x98, 0x80], h_clen = 2, h_ascii = False, h_symbol = False, h_readonly = False\<rparr>
      1 2 = Some buf1"
    "duk_push_wtf8_substring_hstring
        \<lparr>h_data = [0xf0, 0x9f, 0x98, 0x80], h_clen = 2, h_ascii = False, h_symbol = False, h_readonly = False\<rparr>
      1 2 = Some r1"
    "h_data r1 = fst (duk_unicode_wtf8_sanitize_detect buf1)"
    using substring_manufactures_surrogates [OF ok(1) lt(1) le(1) sc(2) sc(3)]
    by (elim exE conjE)
  have b1: "buf1 = [0xed, 0xb8, 0x80]"
    by (simp add: x1(1,2) scalar_at_def duk_unicode_wtf8_decode_known_def surrogate_enc3_def)
  have d1: "h_data r1 = [0xed, 0xb8, 0x80]"
    by (simp add: x1(5) b1 duk_unicode_wtf8_sanitize_detect_def sanitize_eval)
  have c1: "substring_bytes
      \<lparr>h_data = [0xf0, 0x9f, 0x98, 0x80], h_clen = 2, h_ascii = False, h_symbol = False, h_readonly = False\<rparr>
    1 2 = Some [0xed, 0xb8, 0x80]
      \<and> (\<exists>r. duk_push_wtf8_substring_hstring
          \<lparr>h_data = [0xf0, 0x9f, 0x98, 0x80], h_clen = 2, h_ascii = False, h_symbol = False, h_readonly = False\<rparr>
        1 2 = Some r \<and> h_data r = [0xed, 0xb8, 0x80])"
    using x1(3) [unfolded b1] x1(4) d1 by (intro conjI exI)
  obtain r2 buf2 cs2 where x2:
    "cs2 = (if (0::nat) \<noteq> 0 then 0 + 4 else 0)"
    "buf2 =
        (if (0::nat) \<noteq> 0
         then surrogate_enc3 (0xdc00 + (scalar_at (drop 0 (h_data
             \<lparr>h_data = [0xf0, 0x9f, 0x98, 0x80], h_clen = 2, h_ascii = False, h_symbol = False, h_readonly = False\<rparr>))
           - 0x10000) mod 1024)
         else [])
        @ take (0 - cs2) (drop cs2 (h_data
            \<lparr>h_data = [0xf0, 0x9f, 0x98, 0x80], h_clen = 2, h_ascii = False, h_symbol = False, h_readonly = False\<rparr>))
        @ (if (0::nat) \<noteq> 1
           then surrogate_enc3 (0xd800 + (scalar_at (drop 0 (h_data
               \<lparr>h_data = [0xf0, 0x9f, 0x98, 0x80], h_clen = 2, h_ascii = False, h_symbol = False, h_readonly = False\<rparr>))
             - 0x10000) div 1024)
           else [])"
    "substring_bytes
        \<lparr>h_data = [0xf0, 0x9f, 0x98, 0x80], h_clen = 2, h_ascii = False, h_symbol = False, h_readonly = False\<rparr>
      0 1 = Some buf2"
    "duk_push_wtf8_substring_hstring
        \<lparr>h_data = [0xf0, 0x9f, 0x98, 0x80], h_clen = 2, h_ascii = False, h_symbol = False, h_readonly = False\<rparr>
      0 1 = Some r2"
    "h_data r2 = fst (duk_unicode_wtf8_sanitize_detect buf2)"
    using substring_manufactures_surrogates [OF ok(1) lt(2) le(2) sc(1) sc(2)]
    by (elim exE conjE)
  have b2: "buf2 = [0xed, 0xa0, 0xbd]"
    by (simp add: x2(1,2) scalar_at_def duk_unicode_wtf8_decode_known_def surrogate_enc3_def)
  have d2: "h_data r2 = [0xed, 0xa0, 0xbd]"
    by (simp add: x2(5) b2 duk_unicode_wtf8_sanitize_detect_def sanitize_eval)
  have c2: "substring_bytes
      \<lparr>h_data = [0xf0, 0x9f, 0x98, 0x80], h_clen = 2, h_ascii = False, h_symbol = False, h_readonly = False\<rparr>
    0 1 = Some [0xed, 0xa0, 0xbd]
      \<and> (\<exists>r. duk_push_wtf8_substring_hstring
          \<lparr>h_data = [0xf0, 0x9f, 0x98, 0x80], h_clen = 2, h_ascii = False, h_symbol = False, h_readonly = False\<rparr>
        0 1 = Some r \<and> h_data r = [0xed, 0xa0, 0xbd])"
    using x2(3) [unfolded b2] x2(4) d2 by (intro conjI exI)
  obtain r3 buf3 cs3 where x3:
    "cs3 = (if (0::nat) \<noteq> 0 then 0 + 4 else 0)"
    "buf3 =
        (if (0::nat) \<noteq> 0
         then surrogate_enc3 (0xdc00 + (scalar_at (drop 0 (h_data
             \<lparr>h_data = [0x61, 0xf0, 0x9f, 0x98, 0x80], h_clen = 3, h_ascii = False, h_symbol = False, h_readonly = False\<rparr>))
           - 0x10000) mod 1024)
         else [])
        @ take (1 - cs3) (drop cs3 (h_data
            \<lparr>h_data = [0x61, 0xf0, 0x9f, 0x98, 0x80], h_clen = 3, h_ascii = False, h_symbol = False, h_readonly = False\<rparr>))
        @ (if (1::nat) \<noteq> 2
           then surrogate_enc3 (0xd800 + (scalar_at (drop 1 (h_data
               \<lparr>h_data = [0x61, 0xf0, 0x9f, 0x98, 0x80], h_clen = 3, h_ascii = False, h_symbol = False, h_readonly = False\<rparr>))
             - 0x10000) div 1024)
           else [])"
    "substring_bytes
        \<lparr>h_data = [0x61, 0xf0, 0x9f, 0x98, 0x80], h_clen = 3, h_ascii = False, h_symbol = False, h_readonly = False\<rparr>
      0 2 = Some buf3"
    "duk_push_wtf8_substring_hstring
        \<lparr>h_data = [0x61, 0xf0, 0x9f, 0x98, 0x80], h_clen = 3, h_ascii = False, h_symbol = False, h_readonly = False\<rparr>
      0 2 = Some r3"
    "h_data r3 = fst (duk_unicode_wtf8_sanitize_detect buf3)"
    using substring_manufactures_surrogates [OF ok(2) lt(3) le(3) sc(4) sc(5)]
    by (elim exE conjE)
  have b3: "buf3 = [0x61, 0xed, 0xa0, 0xbd]"
    by (simp add: x3(1,2) scalar_at_def duk_unicode_wtf8_decode_known_def surrogate_enc3_def)
  have d3: "h_data r3 = [0x61, 0xed, 0xa0, 0xbd]"
    by (simp add: x3(5) b3 duk_unicode_wtf8_sanitize_detect_def sanitize_eval)
  have c3: "substring_bytes
      \<lparr>h_data = [0x61, 0xf0, 0x9f, 0x98, 0x80], h_clen = 3, h_ascii = False, h_symbol = False, h_readonly = False\<rparr>
    0 2 = Some [0x61, 0xed, 0xa0, 0xbd]
      \<and> (\<exists>r. duk_push_wtf8_substring_hstring
          \<lparr>h_data = [0x61, 0xf0, 0x9f, 0x98, 0x80], h_clen = 3, h_ascii = False, h_symbol = False, h_readonly = False\<rparr>
        0 2 = Some r \<and> h_data r = [0x61, 0xed, 0xa0, 0xbd])"
    using x3(3) [unfolded b3] x3(4) d3 by (intro conjI exI)
  show ?thesis
    using ok sc c1 c2 c3 by (intro conjI) (elim conjE, assumption)+
qed


section \<open>Forward search\<close>

text \<open>
  Claim C8, as amended. For string handles \<open>h\<close> and \<open>n\<close> with valid WTF-8 bytes and
  character lengths below \<open>2^31\<close>, and every start offset \<open>k\<close>, the forward search returns.
  With an empty needle and \<open>k\<close> at most the character length of \<open>h\<close> it returns \<open>k\<close>.
  In general it returns the smallest character offset \<open>i \<ge> k\<close> at which the character range
  of the needle's character length has the needle's bytes, and -1 when there is no such
  offset.
\<close>

theorem search_forwards_smallest_match:
  assumes "hstring_ok h" "hstring_ok n"
    "duk_hstring_get_charlen h < 2147483648" "duk_hstring_get_charlen n < 2147483648"
  shows "\<exists>res. duk_unicode_wtf8_search_forwards h n k = Some res
     \<and> (duk_hstring_get_data n = [] \<and> unat k \<le> duk_hstring_get_charlen h \<longrightarrow> res = int (unat k))
     \<and> ((res = - 1 \<and> (\<forall>i. unat k \<le> i \<longrightarrow> \<not> match_at h n i))
        \<or> (\<exists>i. res = int i \<and> unat k \<le> i \<and> match_at h n i
                \<and> (\<forall>j. unat k \<le> j \<and> j < i \<longrightarrow> \<not> match_at h n j)))"
proof -
  have e: "duk_unicode_wtf8_search_forwards h n k
      = search_forwards_loop h n (h_clen h) (h_clen n) k"
    by (simp add: duk_unicode_wtf8_search_forwards_def
          duk__unicode_wtf8_search_forwards_reference_def duk_hstring_get_charlen_def)
  obtain res where l: "search_forwards_loop h n (h_clen h) (h_clen n) k = Some res"
    and s: "search_result h n (unat k) res"
    using search_loop_spec [OF assms(1,3,4), of k] by (elim exE conjE)
  have "res = int (unat k)"
    if a: "duk_hstring_get_data n = [] \<and> unat k \<le> duk_hstring_get_charlen h"
  proof -
    have m: "match_at h n (unat k)"
      using empty_needle_match [OF assms(1,2)] a by blast
    from s show ?thesis
    proof (elim disjE conjE exE)
      assume "\<forall>i. unat k \<le> i \<longrightarrow> \<not> match_at h n i"
      then show ?thesis using m by blast
    next
      fix i assume i: "res = int i" "unat k \<le> i"
        "\<forall>j. unat k \<le> j \<and> j < i \<longrightarrow> \<not> match_at h n j"
      have "\<not> unat k < i" using i(3) m by blast
      then show ?thesis using i(1,2) by simp
    qed
  qed
  then show ?thesis using l s by (simp only: e) blast
qed

theorem search_forwards_smallest_match_witness:
  "hstring_ok
      \<lparr>h_data = [0x61, 0x62], h_clen = 2, h_ascii = True, h_symbol = False, h_readonly = False\<rparr>
    \<and> hstring_ok
      \<lparr>h_data = [0x62], h_clen = 1, h_ascii = True, h_symbol = False, h_readonly = False\<rparr>
    \<and> hstring_ok
      \<lparr>h_data = [], h_clen = 0, h_ascii = True, h_symbol = False, h_readonly = False\<rparr>
   \<and> duk_hstring_get_charlen
       \<lparr>h_data = [0x61, 0x62], h_clen = 2, h_ascii = True, h_symbol = False, h_readonly = False\<rparr>
     < 2147483648
   \<and> duk_hstring_get_charlen
       \<lparr>h_data = [0x62], h_clen = 1, h_ascii = True, h_symbol = False, h_readonly = False\<rparr>
     < 2147483648
   \<and> duk_hstring_get_charlen
       \<lparr>h_data = [], h_clen = 0, h_ascii = True, h_symbol = False, h_readonly = False\<rparr>
     < 2147483648
   \<and> \<not> match_at
       \<lparr>h_data = [0x61, 0x62], h_clen = 2, h_ascii = True, h_symbol = False, h_readonly = False\<rparr>
       \<lparr>h_data = [0x62], h_clen = 1, h_ascii = True, h_symbol = False, h_readonly = False\<rparr>
     0 \<and> match_at
       \<lparr>h_data = [0x61, 0x62], h_clen = 2, h_ascii = True, h_symbol = False, h_readonly = False\<rparr>
       \<lparr>h_data = [0x62], h_clen = 1, h_ascii = True, h_symbol = False, h_readonly = False\<rparr>
     1
   \<and> duk_unicode_wtf8_search_forwards
       \<lparr>h_data = [0x61, 0x62], h_clen = 2, h_ascii = True, h_symbol = False, h_readonly = False\<rparr>
       \<lparr>h_data = [0x62], h_clen = 1, h_ascii = True, h_symbol = False, h_readonly = False\<rparr>
     0 = Some 1
   \<and> duk_unicode_wtf8_search_forwards
       \<lparr>h_data = [0x61, 0x62], h_clen = 2, h_ascii = True, h_symbol = False, h_readonly = False\<rparr>
       \<lparr>h_data = [0x62], h_clen = 1, h_ascii = True, h_symbol = False, h_readonly = False\<rparr>
     2 = Some (- 1)
   \<and> duk_hstring_get_data
       \<lparr>h_data = [], h_clen = 0, h_ascii = True, h_symbol = False, h_readonly = False\<rparr>
     = [] \<and> unat (1::u32) \<le> duk_hstring_get_charlen
       \<lparr>h_data = [0x61, 0x62], h_clen = 2, h_ascii = True, h_symbol = False, h_readonly = False\<rparr>
   \<and> duk_unicode_wtf8_search_forwards
       \<lparr>h_data = [0x61, 0x62], h_clen = 2, h_ascii = True, h_symbol = False, h_readonly = False\<rparr>
       \<lparr>h_data = [], h_clen = 0, h_ascii = True, h_symbol = False, h_readonly = False\<rparr>
     1 = Some 1"
proof -
  let ?h = "\<lparr>h_data = [0x61, 0x62], h_clen = 2, h_ascii = True, h_symbol = False, h_readonly = False\<rparr>"
  let ?n = "\<lparr>h_data = [0x62], h_clen = 1, h_ascii = True, h_symbol = False, h_readonly = False\<rparr>"
  let ?e = "\<lparr>h_data = [], h_clen = 0, h_ascii = True, h_symbol = False, h_readonly = False\<rparr>"
  have ok: "hstring_ok ?h" "hstring_ok ?n" "hstring_ok ?e"
    by (simp_all add: hstring_ok_def duk_hstring_get_charlen_def)
  have b: "duk_hstring_get_charlen ?h < 2147483648" "duk_hstring_get_charlen ?n < 2147483648"
    "duk_hstring_get_charlen ?e < 2147483648"
    by (simp_all add: duk_hstring_get_charlen_def)
  have m0: "\<not> match_at ?h ?n 0"
    by (simp add: match_at_def substring_eval sanitize_eval)
  have m1: "match_at ?h ?n 1"
    by (simp add: match_at_def substring_eval sanitize_eval)
  have mb: "i \<le> 1" if "match_at ?h ?n i" for i
    using that by (simp add: match_at_def duk_hstring_get_charlen_def)
  have u: "unat (0::u32) = 0" "unat (2::u32) = 2" "unat (1::u32) = 1" by simp_all
  have ee: "duk_hstring_get_data ?e = [] \<and> unat (1::u32) \<le> duk_hstring_get_charlen ?h"
    by (simp add: duk_hstring_get_data_def duk_hstring_get_charlen_def)
  obtain r0 where r0: "duk_unicode_wtf8_search_forwards ?h ?n 0 = Some r0"
    and s0: "search_result ?h ?n (unat (0::u32)) r0"
    using search_forwards_smallest_match [OF ok(1) ok(2) b(1) b(2), of 0] by (elim exE conjE)
  have "r0 = 1"
    using s0
  proof (elim disjE conjE exE)
    assume "\<forall>i. unat (0::u32) \<le> i \<longrightarrow> \<not> match_at ?h ?n i"
    then have "\<not> match_at ?h ?n 1" by (simp only: u) simp
    then show ?thesis using m1 by (rule notE)
  next
    fix i assume i: "r0 = int i" "match_at ?h ?n i"
    have "i \<le> 1" using i(2) by (rule mb)
    moreover have "i \<noteq> 0"
    proof
      assume "i = 0"
      then have "match_at ?h ?n 0" using i(2) by simp
      then show False using m0 by (rule notE [rotated])
    qed
    ultimately have "i = 1" by arith
    then show ?thesis using i(1) by simp
  qed
  then have a0: "duk_unicode_wtf8_search_forwards ?h ?n 0 = Some 1" using r0 by simp
  obtain r2 where r2: "duk_unicode_wtf8_search_forwards ?h ?n 2 = Some r2"
    and s2: "search_result ?h ?n (unat (2::u32)) r2"
    using search_forwards_smallest_match [OF ok(1) ok(2) b(1) b(2), of 2] by (elim exE conjE)
  have "r2 = - 1"
    using s2
  proof (elim disjE conjE exE)
    assume "r2 = - 1"
    then show ?thesis .
  next
    fix i assume i: "unat (2::u32) \<le> i" "match_at ?h ?n i"
    have "i \<le> 1" using i(2) by (rule mb)
    then have False using i(1) by (simp only: u)
    then show ?thesis ..
  qed
  then have a2: "duk_unicode_wtf8_search_forwards ?h ?n 2 = Some (- 1)" using r2 by simp
  obtain r1 where r1: "duk_unicode_wtf8_search_forwards ?h ?e 1 = Some r1"
    and e1: "duk_hstring_get_data ?e = [] \<and> unat (1::u32) \<le> duk_hstring_get_charlen ?h
        \<longrightarrow> r1 = int (unat (1::u32))"
    using search_forwards_smallest_match [OF ok(1) ok(3) b(1) b(3), of 1] by (elim exE conjE)
  have "r1 = int (unat (1::u32))" using e1 ee by (rule mp)
  then have a1: "duk_unicode_wtf8_search_forwards ?h ?e 1 = Some 1" using r1 by (simp add: u)
  show ?thesis
    using ok b m0 m1 a0 a2 ee a1 by (intro conjI) (elim conjE, assumption)+
qed

text \<open>
  Claim C8 as stated fails for a start offset beyond the end of the input: the loop is not
  entered and the sentinel is returned, also for the empty needle. For the input \<open>ab\<close>, the
  empty needle and the start offset 3 the search returns -1, not 3.
\<close>

theorem search_forwards_empty_needle_counterexample:
  "hstring_ok
      \<lparr>h_data = [0x61, 0x62], h_clen = 2, h_ascii = True, h_symbol = False, h_readonly = False\<rparr>
    \<and> hstring_ok
      \<lparr>h_data = [], h_clen = 0, h_ascii = True, h_symbol = False, h_readonly = False\<rparr>
    \<and> duk_hstring_get_data
      \<lparr>h_data = [], h_clen = 0, h_ascii = True, h_symbol = False, h_readonly = False\<rparr>
    = []
   \<and> duk_unicode_wtf8_search_forwards
       \<lparr>h_data = [0x61, 0x62], h_clen = 2, h_ascii = True, h_symbol = False, h_readonly = False\<rparr>
       \<lparr>h_data = [], h_clen = 0, h_ascii = True, h_symbol = False, h_readonly = False\<rparr>
     3 = Some (- 1)
   \<and> duk_unicode_wtf8_search_forwards
       \<lparr>h_data = [0x61, 0x62], h_clen = 2, h_ascii = True, h_symbol = False, h_readonly = False\<rparr>
       \<lparr>h_data = [], h_clen = 0, h_ascii = True, h_symbol = False, h_readonly = False\<rparr>
     3 \<noteq> Some 3"
proof -
  have e: "duk_unicode_wtf8_search_forwards
      \<lparr>h_data = [0x61, 0x62], h_clen = 2, h_ascii = True, h_symbol = False, h_readonly = False\<rparr>
      \<lparr>h_data = [], h_clen = 0, h_ascii = True, h_symbol = False, h_readonly = False\<rparr>
    3 = Some (- 1)"
    unfolding duk_unicode_wtf8_search_forwards_def
      duk__unicode_wtf8_search_forwards_reference_def Let_def
    by (subst search_forwards_loop.simps) (simp add: duk_hstring_get_charlen_def)
  have ok: "hstring_ok
      \<lparr>h_data = [0x61, 0x62], h_clen = 2, h_ascii = True, h_symbol = False, h_readonly = False\<rparr>"
    "hstring_ok
      \<lparr>h_data = [], h_clen = 0, h_ascii = True, h_symbol = False, h_readonly = False\<rparr>"
    by (simp_all add: hstring_ok_def duk_hstring_get_charlen_def)
  have d: "duk_hstring_get_data
      \<lparr>h_data = [], h_clen = 0, h_ascii = True, h_symbol = False, h_readonly = False\<rparr>
    = []" by (simp add: duk_hstring_get_data_def)
  have n: "duk_unicode_wtf8_search_forwards
      \<lparr>h_data = [0x61, 0x62], h_clen = 2, h_ascii = True, h_symbol = False, h_readonly = False\<rparr>
      \<lparr>h_data = [], h_clen = 0, h_ascii = True, h_symbol = False, h_readonly = False\<rparr>
    3 \<noteq> Some 3" by (simp only: e) simp
  show ?thesis using ok d e n by (intro conjI)
qed

end
